theory Spec2Isabelle
  imports Complex_Main "HOL-Library.Word"
begin

section \<open>Python values\<close>

text \<open>
  Python integers are unbounded: \<open>int\<close>. A Python \<open>float\<close> is an IEEE 754 double; it
  is modelled by the real number it denotes, and every float operation by the exact
  operation followed by rounding to the nearest double (\<open>round_double\<close>, below).
  Infinities and NaN are left out: a product or sum of magnitude \<open>2 ^ 1024\<close> or more is
  outside the model. Every Python exception the modelled code can raise is a value of
  \<open>error\<close>.
\<close>

datatype error =
    ZeroDivisionError
  | ValueError
  | TypeError
  | IndexError
  | FileNotFoundError
  | OSError
  | OverflowError

text \<open>\<^verbatim>\<open>int(x)\<close> on a float: truncation towards zero.\<close>

definition py_int :: "real \<Rightarrow> int" where
  "py_int x = (if 0 \<le> x then \<lfloor>x\<rfloor> else \<lceil>x\<rceil>)"

section \<open>Double precision\<close>

text \<open>
  A double has 53 significant bits and a binary exponent of at least \<open>-1022\<close>; below
  that the spacing stays \<open>2 ^ -1074\<close> (subnormal numbers). \<open>round_even\<close> rounds a real
  to the nearest integer, a tie to the even one. \<open>binade x\<close> is the exponent \<open>e\<close> with
  \<open>2 ^ e \<le> |x| < 2 ^ (e + 1)\<close>, found by halving or doubling; \<open>ulp x\<close> is the spacing
  of the doubles around \<open>x\<close>. \<open>round_double x\<close> is the double nearest to \<open>x\<close>, a tie
  going to the even significand, with no upper limit on the exponent.
\<close>

definition round_even :: "real \<Rightarrow> int" where
  "round_even y =
     (let f = \<lfloor>y\<rfloor>
      in if y - of_int f < 1/2 then f
         else if 1/2 < y - of_int f then f + 1
         else if even f then f else f + 1)"

function expo_up :: "real \<Rightarrow> int" where
  "expo_up x = (if 2 \<le> x then expo_up (x / 2) + 1 else 0)"
  by pat_completeness auto
termination
proof (relation "measure (\<lambda>x. nat \<lfloor>x\<rfloor>)")
  show "wf (measure (\<lambda>x::real. nat \<lfloor>x\<rfloor>))" by simp
next
  fix x :: real assume x: "2 \<le> x"
  have "real_of_int \<lfloor>x / 2\<rfloor> \<le> x / 2" by (rule of_int_floor_le)
  also have "x / 2 \<le> x - 1" using x by simp
  also have "x - 1 < real_of_int \<lfloor>x\<rfloor>" by linarith
  finally have "\<lfloor>x / 2\<rfloor> < \<lfloor>x\<rfloor>" by simp
  moreover have "0 < \<lfloor>x\<rfloor>" using x by simp
  ultimately show "(x / 2, x) \<in> measure (\<lambda>x. nat \<lfloor>x\<rfloor>)" by simp
qed

function expo_down :: "real \<Rightarrow> int" where
  "expo_down x = (if 0 < x \<and> x < 1 then expo_down (x * 2) - 1 else 0)"
  by pat_completeness auto
termination
proof (relation "measure (\<lambda>x. nat \<lceil>1 / x\<rceil>)")
  show "wf (measure (\<lambda>x::real. nat \<lceil>1 / x\<rceil>))" by simp
next
  fix x :: real assume "0 < x \<and> x < 1"
  then have x: "0 < x" "x < 1" by simp_all
  then have y: "1 < 1 / x" by simp
  then have c: "2 \<le> \<lceil>1 / x\<rceil>" by linarith
  have "1 / (x * 2) = (1 / x) / 2" by simp
  also have "\<dots> \<le> real_of_int \<lceil>1 / x\<rceil> / 2" by (simp add: divide_right_mono)
  also have "\<dots> \<le> real_of_int (\<lceil>1 / x\<rceil> - 1)" using c by simp
  finally have "\<lceil>1 / (x * 2)\<rceil> \<le> \<lceil>1 / x\<rceil> - 1" by (simp only: ceiling_le_iff)
  then have "nat \<lceil>1 / (x * 2)\<rceil> < nat \<lceil>1 / x\<rceil>" using c by linarith
  then show "(x * 2, x) \<in> measure (\<lambda>x. nat \<lceil>1 / x\<rceil>)" by (simp only: in_measure)
qed

declare expo_up.simps [simp del] expo_down.simps [simp del]

definition binade :: "real \<Rightarrow> int" where
  "binade x = (if 1 \<le> \<bar>x\<bar> then expo_up \<bar>x\<bar> else expo_down \<bar>x\<bar>)"

definition ulp :: "real \<Rightarrow> real" where
  "ulp x = 2 powi (max (binade x) (- 1022) - 52)"

definition round_double :: "real \<Rightarrow> real" where
  "round_double x = real_of_int (round_even (x / ulp x)) * ulp x"

text \<open>
  The float operations of the program. \<open>float_lit\<close> reads a decimal literal such as
  \<^verbatim>\<open>0.4\<close>; the literals \<^verbatim>\<open>0.5\<close>, \<^verbatim>\<open>1.5\<close> and the integers are doubles already.
  The true division of two integers is rounded once and raises \<open>OverflowError\<close> when
  the quotient is too large for a double, \<open>ZeroDivisionError\<close> for a zero divisor.
\<close>

definition float_lit :: "real \<Rightarrow> real" where
  "float_lit x = round_double x"

definition fmul :: "real \<Rightarrow> real \<Rightarrow> real" where
  "fmul x y = round_double (x * y)"

definition fadd :: "real \<Rightarrow> real \<Rightarrow> real" where
  "fadd x y = round_double (x + y)"

definition int_truediv :: "int \<Rightarrow> int \<Rightarrow> error + real" where
  "int_truediv a b =
     (if b = 0 then Inl ZeroDivisionError
      else if 2 powi 1024 \<le> \<bar>round_double (real_of_int a / real_of_int b)\<bar> then Inl OverflowError
      else Inr (round_double (real_of_int a / real_of_int b)))"

section \<open>Integer parameters derived from the intensity\<close>

text \<open>
  \<^verbatim>\<open>poster_bits = max(1, 8 - int(intensity * 2))\<close> (\<open>progressive_glitch\<close>).
  Multiplying a double by 2 or by 1 is exact, so these products (here and in
  \<open>simulate_oil_paint\<close>, \<open>chromatic_aberration\<close> and \<open>watercolor_wash\<close>) are written
  without rounding.
\<close>

definition poster_bits :: "real \<Rightarrow> int" where
  "poster_bits intensity = max 1 (8 - py_int (intensity * 2))"

text \<open>
  The kernel size of \<open>simulate_oil_paint\<close>:
  \<^verbatim>\<open>
  raw_size = int(3 + intensity * 2)
  size = raw_size if raw_size % 2 == 1 else raw_size + 1
  size = max(3, size)
  \<close>
  Python's \<open>%\<close> on integers takes the sign of the divisor, as \<open>mod\<close> on \<open>int\<close> does.
\<close>

definition oil_kernel_size :: "real \<Rightarrow> int" where
  "oil_kernel_size intensity =
     (let raw_size = py_int (fadd 3 (intensity * 2));
          size = (if raw_size mod 2 = 1 then raw_size else raw_size + 1)
      in max 3 size)"


section \<open>Loops that can raise\<close>

text \<open>
  A \<^verbatim>\<open>for\<close> loop whose body may raise: the state is threaded through the items in
  order and the first exception ends the loop.
\<close>

primrec for_each :: "('a \<Rightarrow> 's \<Rightarrow> error + 's) \<Rightarrow> 'a list \<Rightarrow> 's \<Rightarrow> error + 's" where
  "for_each body [] s = Inr s"
| "for_each body (x # xs) s =
     (case body x s of Inl e \<Rightarrow> Inl e | Inr s' \<Rightarrow> for_each body xs s')"

section \<open>Images\<close>

text \<open>
  An image is its size and its pixel access (\<^verbatim>\<open>img.load()\<close>, indexed by \<open>(x, y)\<close>).
  A band of an RGB image is an unsigned byte; an RGB pixel is a triple of bands.
  Only the coordinates inside the size carry meaning.
\<close>

type_synonym channel = "8 word"
type_synonym rgb = "channel \<times> channel \<times> channel"

record 'p image =
  width :: nat
  height :: nat
  pixels :: "nat \<times> nat \<Rightarrow> 'p"

section \<open>The random source\<close>

text \<open>
  \<^verbatim>\<open>random.randint(a, b)\<close> returns some \<open>N\<close> with \<open>a \<le> N \<le> b\<close> and raises
  \<open>ValueError\<close> on an empty range. The generator is unseeded; the model takes the raw
  output of the generator as a sequence \<open>ent\<close> and counts the draws made so far, so a
  realization of the random draws is a choice of \<open>ent\<close>.
\<close>

definition randint :: "int \<Rightarrow> int \<Rightarrow> nat \<Rightarrow> error + int" where
  "randint a b raw = (if b < a then Inl ValueError else Inr (a + int raw mod (b - a + 1)))"

section \<open>add_pixel_noise\<close>

definition clamp_byte :: "int \<Rightarrow> int" where
  "clamp_byte v = max 0 (min 255 v)"

text \<open>
  The body of the inner loop, at pixel \<open>(x, y)\<close>:
  \<^verbatim>\<open>
  r, g, b = pixels[x, y]
  noise = random.randint(-int(intensity * 30), int(intensity * 30))
  pixels[x, y] = (max(0, min(255, r + noise)), max(0, min(255, g + noise)),
                  max(0, min(255, b + noise)))
  \<close>
  The state is the pixel buffer, mutated in place, and the number of draws made.
\<close>

definition noise_pixel ::
  "(nat \<Rightarrow> nat) \<Rightarrow> real \<Rightarrow> nat \<times> nat \<Rightarrow> (nat \<times> nat \<Rightarrow> rgb) \<times> nat
     \<Rightarrow> error + (nat \<times> nat \<Rightarrow> rgb) \<times> nat" where
  "noise_pixel ent intensity xy st =
     (case st of (px, k) \<Rightarrow>
      (case px xy of (r, g, b) \<Rightarrow>
       (case randint (- py_int (fmul intensity 30)) (py_int (fmul intensity 30)) (ent k) of
          Inl e \<Rightarrow> Inl e
        | Inr noise \<Rightarrow>
            Inr (px(xy := (word_of_int (clamp_byte (uint r + noise)),
                           word_of_int (clamp_byte (uint g + noise)),
                           word_of_int (clamp_byte (uint b + noise)))),
                 Suc k))))"

definition add_pixel_noise ::
  "(nat \<Rightarrow> nat) \<Rightarrow> rgb image \<Rightarrow> real \<Rightarrow> nat \<Rightarrow> error + rgb image \<times> nat" where
  "add_pixel_noise ent img intensity k =
     (case for_each
             (\<lambda>x. for_each (\<lambda>y. noise_pixel ent intensity (x, y)) [0..<height img])
             [0..<width img] (pixels img, k) of
        Inl e \<Rightarrow> Inl e
      | Inr (px, k') \<Rightarrow> Inr (img\<lparr>pixels := px\<rparr>, k'))"

section \<open>chromatic_aberration\<close>

text \<open>
  The three Pillow operations used here are modelled on pixels.
  \<^verbatim>\<open>img.split()\<close> gives the bands; \<^verbatim>\<open>ImageChops.offset(im, xoffset, yoffset)\<close>
  moves the data by the given distances, wrapping around the edges;
  \<^verbatim>\<open>Image.merge("RGB", bands)\<close> recombines three bands and raises \<open>ValueError\<close> when
  their sizes differ.
\<close>

definition image_split :: "rgb image \<Rightarrow> channel image \<times> channel image \<times> channel image" where
  "image_split img =
     (\<lparr>width = width img, height = height img, pixels = (\<lambda>xy. fst (pixels img xy))\<rparr>,
      \<lparr>width = width img, height = height img, pixels = (\<lambda>xy. fst (snd (pixels img xy)))\<rparr>,
      \<lparr>width = width img, height = height img, pixels = (\<lambda>xy. snd (snd (pixels img xy)))\<rparr>)"

definition imagechops_offset :: "channel image \<Rightarrow> int \<Rightarrow> int \<Rightarrow> channel image" where
  "imagechops_offset im xoffset yoffset =
     \<lparr>width = width im, height = height im,
      pixels = (\<lambda>(x, y). pixels im (nat ((int x - xoffset) mod int (width im)),
                                    nat ((int y - yoffset) mod int (height im))))\<rparr>"

definition image_merge ::
  "channel image \<Rightarrow> channel image \<Rightarrow> channel image \<Rightarrow> error + rgb image" where
  "image_merge r g b =
     (if (width g, height g) \<noteq> (width r, height r) \<or> (width b, height b) \<noteq> (width r, height r)
      then Inl ValueError
      else Inr \<lparr>width = width r, height = height r,
                pixels = (\<lambda>xy. (pixels r xy, pixels g xy, pixels b xy))\<rparr>)"

definition chromatic_aberration :: "rgb image \<Rightarrow> real \<Rightarrow> error + rgb image" where
  "chromatic_aberration img intensity =
     (case image_split img of (r, g, b) \<Rightarrow>
        (let r_shifted = imagechops_offset r (py_int (intensity * 2)) 0;
             g_shifted = imagechops_offset g (- py_int (intensity * 1)) 0
         in image_merge r_shifted g_shifted b))"

section \<open>The imaging library\<close>

text \<open>
  The remaining Pillow operations (blurs, enhancers, convolution kernels, compositing,
  decoding and encoding) are parameters of the model: the program is verified for every
  behaviour of the library. \<open>'raw\<close> is a decoded image in the mode of its file.
  \<open>glow_composite lib img mask\<close> stands for the end of \<open>circuit_etch\<close>: a transparent
  RGBA layer of the size of \<open>img\<close>, a flat band of value 200 pasted into it through
  \<open>mask\<close>, the layer composited over \<open>img\<close> and the result converted back to RGB.
\<close>

record 'raw pillow =
  image_open :: "string \<Rightarrow> error + 'raw"
  convert_rgb :: "'raw \<Rightarrow> error + rgb image"
  save_png :: "rgb image \<Rightarrow> string"
  gaussian_blur :: "real \<Rightarrow> rgb image \<Rightarrow> rgb image"
  enhance_contrast :: "real \<Rightarrow> rgb image \<Rightarrow> rgb image"
  enhance_color :: "real \<Rightarrow> rgb image \<Rightarrow> rgb image"
  enhance_brightness :: "real \<Rightarrow> rgb image \<Rightarrow> rgb image"
  enhance_sharpness :: "real \<Rightarrow> rgb image \<Rightarrow> rgb image"
  posterize_bits :: "int \<Rightarrow> rgb image \<Rightarrow> rgb image"
  find_edges :: "rgb image \<Rightarrow> rgb image"
  emboss :: "rgb image \<Rightarrow> rgb image"
  median_rank :: "int \<Rightarrow> rgb image \<Rightarrow> rgb image"
  blend :: "rgb image \<Rightarrow> rgb image \<Rightarrow> real \<Rightarrow> rgb image"
  convert_L :: "rgb image \<Rightarrow> channel image"
  glow_composite :: "rgb image \<Rightarrow> channel image \<Rightarrow> rgb image"

text \<open>
  Two library calls check their integer argument. \<^verbatim>\<open>ImageOps.posterize(image, bits)\<close>
  builds the mask \<^verbatim>\<open>~(2 ** (8 - bits) - 1)\<close>, a \<open>TypeError\<close> once \<open>8 - bits\<close> is negative;
  the rank filter behind \<^verbatim>\<open>ImageFilter.MedianFilter(size)\<close> raises \<open>ValueError\<close>
  (bad filter size) for an even size.
\<close>

definition posterize :: "'raw pillow \<Rightarrow> rgb image \<Rightarrow> int \<Rightarrow> error + rgb image" where
  "posterize lib img bits =
     (if 8 < bits then Inl TypeError else Inr (posterize_bits lib bits img))"

definition median_filter :: "'raw pillow \<Rightarrow> int \<Rightarrow> rgb image \<Rightarrow> error + rgb image" where
  "median_filter lib ksize img =
     (if ksize mod 2 = 0 then Inl ValueError else Inr (median_rank lib ksize img))"

text \<open>\<^verbatim>\<open>im.point(f)\<close> on a single band: the table \<open>f(0), ..., f(255)\<close> applied to every pixel.\<close>

definition image_point :: "(int \<Rightarrow> int) \<Rightarrow> channel image \<Rightarrow> channel image" where
  "image_point f im =
     \<lparr>width = width im, height = height im, pixels = (\<lambda>xy. word_of_int (f (uint (pixels im xy))))\<rparr>"

section \<open>The layers\<close>

definition circuit_etch :: "'raw pillow \<Rightarrow> rgb image \<Rightarrow> real \<Rightarrow> rgb image" where
  "circuit_etch lib img intensity =
     (let edges = convert_L lib (find_edges lib img);
          mask = image_point
                   (\<lambda>p. max 0 (min 255 (py_int (fmul (fmul (real_of_int p) intensity) 0.5)))) edges
      in glow_composite lib img mask)"

definition simulate_oil_paint :: "'raw pillow \<Rightarrow> rgb image \<Rightarrow> real \<Rightarrow> error + rgb image" where
  "simulate_oil_paint lib img intensity =
     (case median_filter lib (oil_kernel_size intensity) img of
        Inl e \<Rightarrow> Inl e
      | Inr oiled \<Rightarrow> Inr (enhance_sharpness lib (fadd 1 (fmul intensity 0.5)) oiled))"

definition watercolor_wash :: "'raw pillow \<Rightarrow> rgb image \<Rightarrow> real \<Rightarrow> rgb image" where
  "watercolor_wash lib img intensity =
     (let washed = gaussian_blur lib (intensity * 1) img;
          tint_factor = fadd 1.0 (fmul intensity (float_lit 0.1))
      in enhance_color lib tint_factor washed)"

definition emboss_relief :: "'raw pillow \<Rightarrow> rgb image \<Rightarrow> real \<Rightarrow> rgb image" where
  "emboss_relief lib img intensity =
     (let embossed = emboss lib img;
          relief = enhance_contrast lib (fmul intensity (float_lit 0.4)) embossed
      in blend lib img relief (fmul intensity (float_lit 0.4)))"

section \<open>progressive_glitch\<close>

text \<open>
  \<^verbatim>\<open>intensity = (step / max_steps) * 1.5\<close>: the quotient of the two integers is rounded
  to a double, and so is its product with \<open>1.5\<close>.
\<close>

definition ramp_intensity :: "int \<Rightarrow> int \<Rightarrow> error + real" where
  "ramp_intensity step max_steps =
     (case int_truediv step max_steps of
        Inl e \<Rightarrow> Inl e
      | Inr q \<Rightarrow> Inr (fmul q 1.5))"

text \<open>
  The rest of the body, from the blur to the emboss blend, at a given intensity.
  \<^verbatim>\<open>edged.convert("RGB")\<close> and \<^verbatim>\<open>relief.convert("RGB")\<close> copy an image that is RGB already.
\<close>

definition glitch_layers ::
  "'raw pillow \<Rightarrow> (nat \<Rightarrow> nat) \<Rightarrow> rgb image \<Rightarrow> real \<Rightarrow> nat \<Rightarrow> error + rgb image \<times> nat" where
  "glitch_layers lib ent img intensity k =
     (let blurred = gaussian_blur lib (fmul intensity 1.5) img;
          contrasted = enhance_contrast lib (fadd 1 (fmul intensity 0.5)) blurred;
          color_surge = enhance_color lib (fadd (float_lit 1.1) (fmul intensity (float_lit 0.4)))
                          contrasted
      in case posterize lib color_surge (poster_bits intensity) of
           Inl e \<Rightarrow> Inl e
         | Inr posterized \<Rightarrow>
        (case add_pixel_noise ent posterized intensity k of
           Inl e \<Rightarrow> Inl e
         | Inr (noised, k') \<Rightarrow>
        (let edged = find_edges lib noised;
             edged = enhance_brightness lib (fmul intensity (float_lit 0.3)) edged;
             glitched = blend lib noised edged (fmul intensity (float_lit 0.2))
         in case chromatic_aberration glitched intensity of
              Inl e \<Rightarrow> Inl e
            | Inr aberrated \<Rightarrow>
           (let etched = circuit_etch lib aberrated intensity
            in case simulate_oil_paint lib etched intensity of
                 Inl e \<Rightarrow> Inl e
               | Inr oiled \<Rightarrow>
                   (let washed = watercolor_wash lib oiled intensity;
                        relieved = emboss_relief lib washed intensity
                    in Inr (relieved, k'))))))"

definition progressive_glitch ::
  "'raw pillow \<Rightarrow> (nat \<Rightarrow> nat) \<Rightarrow> rgb image \<Rightarrow> int \<Rightarrow> int \<Rightarrow> nat \<Rightarrow> error + rgb image \<times> nat" where
  "progressive_glitch lib ent img step max_steps k =
     (case ramp_intensity step max_steps of
        Inl e \<Rightarrow> Inl e
      | Inr intensity \<Rightarrow> glitch_layers lib ent img intensity k)"

section \<open>Strings and paths\<close>

text \<open>
  A Python string is modelled by its UTF-8 bytes, which are also what is written to a text
  file. \<^verbatim>\<open>str(i)\<close>, as used by the f-strings, is the decimal numeral of an integer.
\<close>

definition digit_char :: "nat \<Rightarrow> char" where
  "digit_char d = ''0123456789'' ! d"

fun str_nat :: "nat \<Rightarrow> string" where
  "str_nat n = (if n < 10 then [digit_char n] else str_nat (n div 10) @ [digit_char (n mod 10)])"

declare str_nat.simps [simp del]

definition py_str :: "int \<Rightarrow> string" where
  "py_str i = (if i < 0 then ''-'' @ str_nat (nat (- i)) else str_nat (nat i))"

text \<open>
  \<open>posixpath\<close>: \<^verbatim>\<open>os.path.join(a, b)\<close>, \<^verbatim>\<open>os.path.dirname(p)\<close> and
  \<^verbatim>\<open>os.path.basename(p)\<close>. \<open>path_head p\<close> is \<^verbatim>\<open>p[:p.rfind('/') + 1]\<close>.
\<close>

definition os_path_join :: "string \<Rightarrow> string \<Rightarrow> string" where
  "os_path_join a b =
     (if b \<noteq> [] \<and> hd b = CHR ''/'' then b
      else if a = [] \<or> last a = CHR ''/'' then a @ b
      else a @ ''/'' @ b)"

definition path_head :: "string \<Rightarrow> string" where
  "path_head p = rev (dropWhile (\<lambda>c. c \<noteq> CHR ''/'') (rev p))"

definition os_path_basename :: "string \<Rightarrow> string" where
  "os_path_basename p = rev (takeWhile (\<lambda>c. c \<noteq> CHR ''/'') (rev p))"

definition os_path_dirname :: "string \<Rightarrow> string" where
  "os_path_dirname p =
     (let head = path_head p
      in if head \<noteq> [] \<and> head \<noteq> replicate (length head) (CHR ''/'')
         then rev (dropWhile (\<lambda>c. c = CHR ''/'') (rev head))
         else head)"

text \<open>
  Python list indexing \<^verbatim>\<open>xs[i]\<close>: a negative index counts from the end, an index out
  of range raises \<open>IndexError\<close>. \<^verbatim>\<open>enumerate(xs, start)\<close> pairs the items with
  consecutive integers.
\<close>

definition py_getitem :: "'a list \<Rightarrow> int \<Rightarrow> error + 'a" where
  "py_getitem xs i =
     (if 0 \<le> i \<and> i < int (length xs) then Inr (xs ! nat i)
      else if i < 0 \<and> - int (length xs) \<le> i then Inr (xs ! nat (int (length xs) + i))
      else Inl IndexError)"

primrec py_enumerate :: "'a list \<Rightarrow> int \<Rightarrow> (int \<times> 'a) list" where
  "py_enumerate [] start = []"
| "py_enumerate (x # xs) start = (start, x) # py_enumerate xs (start + 1)"

section \<open>The file system\<close>

text \<open>
  Files are the bytes stored under a path. Directories, permissions and a full disk are
  not modelled: opening a missing file raises \<open>FileNotFoundError\<close>, and so does
  \<^verbatim>\<open>os.makedirs("", exist_ok=True)\<close>; every other write succeeds. Console output
  (\<^verbatim>\<open>print\<close>) is left out.
\<close>

type_synonym files = "string \<Rightarrow> string option"

definition makedirs :: "string \<Rightarrow> error + unit" where
  "makedirs name = (if name = [] then Inl FileNotFoundError else Inr ())"

section \<open>generate_jack_variants\<close>

text \<open>
  The body of the loop over \<^verbatim>\<open>range(1, num_images + 1)\<close>. Its state is the current
  image, the list of variants, the files and the number of random draws made.
\<close>

definition jack_step ::
  "'raw pillow \<Rightarrow> (nat \<Rightarrow> nat) \<Rightarrow> int \<Rightarrow> string \<Rightarrow> int
     \<Rightarrow> rgb image \<times> string list \<times> files \<times> nat
     \<Rightarrow> error + rgb image \<times> string list \<times> files \<times> nat" where
  "jack_step lib ent num_images output_dir i st =
     (case st of (current, variants, fs, k) \<Rightarrow>
      (case progressive_glitch lib ent current i num_images k of
         Inl e \<Rightarrow> Inl e
       | Inr (glitched, k') \<Rightarrow>
           (let output_path = os_path_join output_dir (''jack_'' @ py_str i @ ''.png'')
            in Inr (glitched, variants @ [output_path],
                    fs(output_path \<mapsto> save_png lib glitched), k'))))"

definition generate_jack_variants ::
  "'raw pillow \<Rightarrow> (nat \<Rightarrow> nat) \<Rightarrow> string \<Rightarrow> int \<Rightarrow> string \<Rightarrow> files \<times> nat
     \<Rightarrow> error + string list \<times> files \<times> nat" where
  "generate_jack_variants lib ent input_path num_images output_dir st =
     (case st of (fs, k) \<Rightarrow>
      (case fs input_path of
         None \<Rightarrow> Inl FileNotFoundError
       | Some data \<Rightarrow>
      (case image_open lib data of
         Inl e \<Rightarrow> Inl e
       | Inr raw \<Rightarrow>
      (case convert_rgb lib raw of
         Inl e \<Rightarrow> Inl e
       | Inr base_image \<Rightarrow>
      (case makedirs output_dir of
         Inl e \<Rightarrow> Inl e
       | Inr _ \<Rightarrow>
      (let base_path = os_path_join output_dir ''jack_0.png'';
           fs1 = fs(base_path \<mapsto> save_png lib base_image)
       in case for_each (jack_step lib ent num_images output_dir) [1..num_images]
                 (base_image, [base_path], fs1, k) of
            Inl e \<Rightarrow> Inl e
          | Inr (current, variants, fs', k') \<Rightarrow> Inr (variants, fs', k')))))))"

section \<open>jack_thread_captions\<close>

definition thread_header :: string where
  "thread_header =
     [CHR 0xC3, CHR 0xB0, CHR 0xC5, CHR 0xB8, CHR 0xC2, CHR 0xA7, CHR 0xC2, CHR 0xB5]
     @ '' Cyber Splash Pijack: Neon waifu unravels''
     @ [CHR 0xC3, CHR 0xA2, CHR 0xE2, CHR 0x82, CHR 0xAC, CHR 0xE2, CHR 0x80, CHR 0x9D]
     @ ''fringes flare, circuits etch, oils drip in the grid. Bench-born glow. #CyberGlitch #NeonArt''
     @ [CHR 0x0A, CHR 0x0A]"

definition thread_footer :: string where
  "thread_footer =
     ''Grid collapse. Which pulse hooks you? Quote to hack. ''
     @ [CHR 0xC3, CHR 0xB0, CHR 0xC5, CHR 0xB8, CHR 0xC5, CHR 0x92, CHR 0xC3, CHR 0xB0,
        CHR 0xC5, CHR 0xB8, CHR 0xE2, CHR 0x80, CHR 0x99, CHR 0xC2, CHR 0xA8]"

definition ramp_dash :: string where
  "ramp_dash = [CHR 0xC3, CHR 0xA2, CHR 0xE2, CHR 0x82, CHR 0xAC, CHR 0xE2, CHR 0x80, CHR 0x9D]"

definition effects :: "string list" where
  "effects =
     [''chromatic fringes tease the blue haze'',
      ''saturation surges, wires glow faint'',
      ''watercolor bleeds into tattoo veins'',
      ''oil strokes slick the cyber storm'',
      ''emboss relief fractures the sip'']"

text \<open>
  The body of the loop over \<^verbatim>\<open>enumerate(variants[1:], 1)\<close>; \<open>n_steps\<close> is
  \<^verbatim>\<open>len(variants) - 1\<close>. A watermark is appended when it is truthy: neither \<open>None\<close>
  nor the empty string.
\<close>

definition caption_step ::
  "int \<Rightarrow> string option \<Rightarrow> int \<times> string \<Rightarrow> string \<Rightarrow> error + string" where
  "caption_step n_steps watermark_text ip thread =
     (case ip of (i, path) \<Rightarrow>
      (case (if i \<le> int (length effects) then py_getitem effects (i - 1)
             else Inr ''matrix meltdown peaks'') of
         Inl e \<Rightarrow> Inl e
       | Inr phrase \<Rightarrow>
           (let cap = py_str i @ ''/'' @ py_str n_steps @ '': Ramp '' @ py_str i @ ramp_dash
                      @ phrase @ ''. Portrait pulses. '';
                cap = (case watermark_text of
                         None \<Rightarrow> cap
                       | Some w \<Rightarrow> if w = [] then cap else cap @ w @ '' '');
                cap = cap @ [CHR 0x0A] @ ''[Neon Fracture: '' @ os_path_basename path @ '']''
                      @ [CHR 0x0A, CHR 0x0A]
            in Inr (thread @ cap))))"

definition jack_thread_captions ::
  "string list \<Rightarrow> string option \<Rightarrow> files \<Rightarrow> error + string \<times> files" where
  "jack_thread_captions variants watermark_text fs =
     (case for_each (caption_step (int (length variants) - 1) watermark_text)
             (py_enumerate (drop 1 variants) 1) thread_header of
        Inl e \<Rightarrow> Inl e
      | Inr thread \<Rightarrow>
          (let thread = thread @ thread_footer;
               output_dir = (if variants \<noteq> [] then os_path_dirname (hd variants) else ''.'');
               caption_file = os_path_join output_dir ''cyber_jack_thread.txt''
           in Inr (thread, fs(caption_file \<mapsto> thread))))"

section \<open>main\<close>

record args =
  input :: string
  num_images :: int
  output_dir :: string
  watermark_text :: "string option"

definition main ::
  "'raw pillow \<Rightarrow> (nat \<Rightarrow> nat) \<Rightarrow> args \<Rightarrow> files \<times> nat \<Rightarrow> error + string \<times> files \<times> nat" where
  "main lib ent a st =
     (case generate_jack_variants lib ent (input a) (num_images a) (output_dir a) st of
        Inl e \<Rightarrow> Inl e
      | Inr (variants, fs, k) \<Rightarrow>
          (case jack_thread_captions variants (watermark_text a) fs of
             Inl e \<Rightarrow> Inl e
           | Inr (thread, fs') \<Rightarrow> Inr (thread, fs', k)))"

section \<open>Auxiliary notions for the statements\<close>

text \<open>
  \<open>noise_draw ent intensity j\<close> is the value that the \<open>j\<close>-th call of
  \<^verbatim>\<open>random.randint(-int(intensity * 30), int(intensity * 30))\<close> returns, and
  \<open>noisy noise p\<close> the pixel that \<open>add_pixel_noise\<close> stores for \<open>p\<close> and that value.
\<close>

definition noise_draw :: "(nat \<Rightarrow> nat) \<Rightarrow> real \<Rightarrow> nat \<Rightarrow> int" where
  "noise_draw ent intensity j =
     - py_int (fmul intensity 30) + int (ent j) mod (2 * py_int (fmul intensity 30) + 1)"

definition noisy :: "int \<Rightarrow> rgb \<Rightarrow> rgb" where
  "noisy noise p =
     (case p of (r, g, b) \<Rightarrow>
        (word_of_int (clamp_byte (uint r + noise)),
         word_of_int (clamp_byte (uint g + noise)),
         word_of_int (clamp_byte (uint b + noise))))"

text \<open>
  \<open>jack_name d i\<close> is the path of the image of step \<open>i\<close> in the output directory
  \<open>d\<close>; \<open>dir_prefix d\<close> is what \<open>os.path.join\<close> puts in front of a relative name.
\<close>

definition dir_prefix :: "string \<Rightarrow> string" where
  "dir_prefix a = (if a = [] \<or> last a = CHR ''/'' then a else a @ ''/'')"

definition jack_name :: "string \<Rightarrow> nat \<Rightarrow> string" where
  "jack_name d i = os_path_join d (''jack_'' @ py_str (int i) @ ''.png'')"

text \<open>
  \<open>caption_path d\<close> is the path of the caption file when the output directory is \<open>d\<close>:
  the directory of the first variant, joined with the fixed file name.
\<close>

definition caption_path :: "string \<Rightarrow> string" where
  "caption_path d =
     os_path_join (os_path_dirname (os_path_join d ''jack_0.png'')) ''cyber_jack_thread.txt''"

text \<open>
  The caption text as the specification describes it: \<open>bank_phrase i\<close> is the phrase of
  the \<open>i\<close>-th paragraph (counted from 1), the \<open>i\<close>-th entry of the phrase bank up to 5
  and the fallback phrase beyond; \<open>numbered_paragraph N wm i path\<close> is the \<open>i\<close>-th of
  \<open>N\<close> numbered paragraphs, for the variant stored at \<open>path\<close>.
\<close>

definition bank_phrase :: "nat \<Rightarrow> string" where
  "bank_phrase i = (if i \<le> 5 then effects ! (i - 1) else ''matrix meltdown peaks'')"

definition numbered_paragraph :: "nat \<Rightarrow> string option \<Rightarrow> nat \<Rightarrow> string \<Rightarrow> string" where
  "numbered_paragraph N wm i path =
     str_nat i @ ''/'' @ str_nat N @ '': Ramp '' @ str_nat i @ ramp_dash @ bank_phrase i
     @ ''. Portrait pulses. ''
     @ (case wm of None \<Rightarrow> [] | Some w \<Rightarrow> if w = [] then [] else w @ '' '')
     @ [CHR 0x0A] @ ''[Neon Fracture: '' @ os_path_basename path @ '']'' @ [CHR 0x0A, CHR 0x0A]"

text \<open>
  A library instance on which the program can be run: a file of any non-empty content
  decodes to a one-pixel image, every filter returns its input, and the encoder writes
  a fixed marker.
\<close>

definition plain_pillow :: "string pillow" where
  "plain_pillow =
     \<lparr>image_open = (\<lambda>data. if data = [] then Inl OSError else Inr data),
      convert_rgb = (\<lambda>raw. Inr \<lparr>width = 1, height = 1, pixels = (\<lambda>p. (10, 20, 30))\<rparr>),
      save_png = (\<lambda>img. ''PNG''),
      gaussian_blur = (\<lambda>radius img. img),
      enhance_contrast = (\<lambda>factor img. img),
      enhance_color = (\<lambda>factor img. img),
      enhance_brightness = (\<lambda>factor img. img),
      enhance_sharpness = (\<lambda>factor img. img),
      posterize_bits = (\<lambda>bits img. img),
      find_edges = (\<lambda>img. img),
      emboss = (\<lambda>img. img),
      median_rank = (\<lambda>ksize img. img),
      blend = (\<lambda>im1 im2 alpha. im1),
      convert_L = (\<lambda>img. \<lparr>width = width img, height = height img, pixels = (\<lambda>p. fst (pixels img p))\<rparr>),
      glow_composite = (\<lambda>img mask. img)\<rparr>"

section \<open>Rounding to a double\<close>

lemma round_even_of_int: "round_even (of_int n) = n"
  by (simp add: round_even_def)

lemma round_even_cases:
  "round_even y = \<lfloor>y\<rfloor> \<or> round_even y = \<lfloor>y\<rfloor> + 1"
  by (simp add: round_even_def Let_def)

lemma round_even_floor: "y - of_int \<lfloor>y\<rfloor> < 1/2 \<Longrightarrow> round_even y = \<lfloor>y\<rfloor>"
  by (simp add: round_even_def)

lemma round_even_mono:
  assumes "a \<le> b"
  shows "round_even a \<le> round_even b"
proof (cases "\<lfloor>a\<rfloor> = \<lfloor>b\<rfloor>")
  case False
  with assms have "\<lfloor>a\<rfloor> < \<lfloor>b\<rfloor>"
    using floor_mono [OF assms] by simp
  then have "\<lfloor>a\<rfloor> + 1 \<le> \<lfloor>b\<rfloor>" by simp
  moreover have "round_even a \<le> \<lfloor>a\<rfloor> + 1"
    using round_even_cases [of a] by auto
  moreover have "\<lfloor>b\<rfloor> \<le> round_even b"
    using round_even_cases [of b] by auto
  ultimately show ?thesis by simp
next
  case True
  then have "a - of_int \<lfloor>a\<rfloor> \<le> b - of_int \<lfloor>b\<rfloor>"
    using assms by simp
  then show ?thesis
    using True by (auto simp: round_even_def Let_def)
qed

lemma round_even_error: "\<bar>real_of_int (round_even y) - y\<bar> \<le> 1/2"
proof -
  define d where "d = y - real_of_int \<lfloor>y\<rfloor>"
  have d: "0 \<le> d" "d < 1"
    unfolding d_def by linarith+
  have y: "y = real_of_int \<lfloor>y\<rfloor> + d"
    by (simp add: d_def)
  consider "d < 1/2" | "1/2 < d" | "d = 1/2" by linarith
  then show ?thesis
  proof cases
    case 1
    then have "round_even y = \<lfloor>y\<rfloor>"
      by (simp add: round_even_def d_def)
    then show ?thesis using 1 d y by linarith
  next
    case 2
    then have "round_even y = \<lfloor>y\<rfloor> + 1"
      by (simp add: round_even_def d_def)
    then have "real_of_int (round_even y) = real_of_int \<lfloor>y\<rfloor> + 1" by simp
    then show ?thesis using 2 d y by linarith
  next
    case 3
    have "round_even y = \<lfloor>y\<rfloor> \<or> round_even y = \<lfloor>y\<rfloor> + 1"
      by (rule round_even_cases)
    then have "real_of_int (round_even y) = real_of_int \<lfloor>y\<rfloor>
        \<or> real_of_int (round_even y) = real_of_int \<lfloor>y\<rfloor> + 1"
      by auto
    then show ?thesis using 3 y by linarith
  qed
qed

lemma expo_up_bounds:
  "1 \<le> x \<Longrightarrow> 0 \<le> expo_up x \<and> 2 powi expo_up x \<le> x \<and> x < 2 powi (expo_up x + 1)"
proof (induction x rule: expo_up.induct)
  case (1 x)
  show ?case
  proof (cases "2 \<le> x")
    case True
    then have "1 \<le> x / 2" by simp
    from "1.IH" [OF True this]
    have ih: "0 \<le> expo_up (x / 2)" "2 powi expo_up (x / 2) \<le> x / 2"
      "x / 2 < 2 powi (expo_up (x / 2) + 1)"
      by simp_all
    have e: "expo_up x = expo_up (x / 2) + 1"
      using True by (subst expo_up.simps) simp
    have p: "2 powi (expo_up (x / 2) + 1) = 2 powi expo_up (x / 2) * (2::real)"
      by (simp add: power_int_add)
    have q: "2 powi (expo_up (x / 2) + 1 + 1) = 2 powi (expo_up (x / 2) + 1) * (2::real)"
      by (simp add: power_int_add)
    show ?thesis
      using ih unfolding e q by (simp add: p)
  next
    case False
    then have e: "expo_up x = 0"
      by (subst expo_up.simps) simp
    show ?thesis using False "1.prems" by (simp add: e)
  qed
qed

lemma expo_down_bounds:
  "0 < x \<Longrightarrow> x < 1 \<Longrightarrow> 2 powi expo_down x \<le> x \<and> x < 2 powi (expo_down x + 1)"
proof (induction x rule: expo_down.induct)
  case (1 x)
  have c: "0 < x \<and> x < 1" using "1.prems" by simp
  have e: "expo_down x = expo_down (x * 2) - 1"
    using c by (subst expo_down.simps) simp
  show ?case
  proof (cases "x * 2 < 1")
    case True
    from "1.IH" [OF c _ True] c
    have ih: "2 powi expo_down (x * 2) \<le> x * 2" "x * 2 < 2 powi (expo_down (x * 2) + 1)"
      by simp_all
    have p: "2 powi (expo_down (x * 2) - 1) = 2 powi expo_down (x * 2) / (2::real)"
      by (simp add: power_int_diff)
    have q: "2 powi (expo_down (x * 2) - 1 + 1) = 2 powi (expo_down (x * 2) + 1) / (2::real)"
      by (simp add: power_int_add)
    show ?thesis
      using ih unfolding e p q by simp
  next
    case False
    then have z: "expo_down (x * 2) = 0"
      by (subst expo_down.simps) simp
    show ?thesis
      using False c by (simp add: e z)
  qed
qed

lemma binade_bounds:
  assumes "x \<noteq> 0"
  shows "2 powi binade x \<le> \<bar>x\<bar>" and "\<bar>x\<bar> < 2 powi (binade x + 1)"
proof -
  have "2 powi binade x \<le> \<bar>x\<bar> \<and> \<bar>x\<bar> < 2 powi (binade x + 1)"
  proof (cases "1 \<le> \<bar>x\<bar>")
    case True
    then show ?thesis
      using expo_up_bounds [of "\<bar>x\<bar>"] by (simp add: binade_def)
  next
    case False
    moreover have "0 < \<bar>x\<bar>" using assms by simp
    ultimately show ?thesis
      using expo_down_bounds [of "\<bar>x\<bar>"] by (simp add: binade_def)
  qed
  then show "2 powi binade x \<le> \<bar>x\<bar>" and "\<bar>x\<bar> < 2 powi (binade x + 1)"
    by simp_all
qed

lemma pow2_less_imp: "(2::real) powi a < 2 powi b \<Longrightarrow> a < b"
proof (rule ccontr)
  assume l: "(2::real) powi a < 2 powi b" and "\<not> a < b"
  then have "b \<le> a" by simp
  then have "(2::real) powi b \<le> 2 powi a"
    by (rule power_int_increasing) simp
  with l show False by simp
qed

lemma binade_unique:
  assumes "2 powi e \<le> \<bar>x\<bar>" "\<bar>x\<bar> < 2 powi (e + 1)"
  shows "binade x = e"
proof -
  have "0 < (2::real) powi e" by simp
  with assms(1) have "0 < \<bar>x\<bar>" by linarith
  then have nz: "x \<noteq> 0" by simp
  note b = binade_bounds [OF nz]
  have "(2::real) powi e < 2 powi (binade x + 1)"
    using assms(1) b(2) by linarith
  then have 1: "e < binade x + 1"
    by (rule pow2_less_imp)
  have "(2::real) powi binade x < 2 powi (e + 1)"
    using assms(2) b(1) by linarith
  then have 2: "binade x < e + 1"
    by (rule pow2_less_imp)
  from 1 2 show ?thesis by simp
qed

lemma ulp_pos: "0 < ulp x"
  by (simp add: ulp_def)

lemma round_double_0: "round_double 0 = 0"
  by (simp add: round_double_def round_even_def)

lemma round_double_nonneg:
  assumes "0 \<le> x"
  shows "0 \<le> round_double x"
proof -
  have "0 \<le> x / ulp x"
    using assms ulp_pos [of x] by simp
  then have "round_even 0 \<le> round_even (x / ulp x)"
    by (rule round_even_mono)
  then have "0 \<le> round_even (x / ulp x)"
    using round_even_of_int [of 0] by simp
  then show ?thesis
    using ulp_pos [of x] by (simp add: round_double_def)
qed

lemma round_double_error: "\<bar>round_double x - x\<bar> \<le> ulp x / 2"
proof -
  have "\<bar>real_of_int (round_even (x / ulp x)) - x / ulp x\<bar> \<le> 1/2"
    by (rule round_even_error)
  then have "\<bar>real_of_int (round_even (x / ulp x)) - x / ulp x\<bar> * ulp x \<le> 1/2 * ulp x"
    using ulp_pos [of x] by (intro mult_right_mono) simp_all
  moreover have "\<bar>real_of_int (round_even (x / ulp x)) - x / ulp x\<bar> * ulp x
      = \<bar>round_double x - x\<bar>"
  proof -
    have "\<bar>real_of_int (round_even (x / ulp x)) - x / ulp x\<bar> * ulp x
        = \<bar>(real_of_int (round_even (x / ulp x)) - x / ulp x) * ulp x\<bar>"
      using ulp_pos [of x] by (simp add: abs_mult)
    also have "(real_of_int (round_even (x / ulp x)) - x / ulp x) * ulp x = round_double x - x"
      using ulp_pos [of x] by (simp add: round_double_def algebra_simps)
    finally show ?thesis .
  qed
  ultimately show ?thesis by simp
qed

lemma binade_mono_pos:
  assumes "0 < x" "x \<le> y"
  shows "binade x \<le> binade y"
proof -
  have nz: "x \<noteq> 0" "y \<noteq> 0" using assms by simp_all
  have "2 powi binade x \<le> \<bar>x\<bar>" by (rule binade_bounds(1) [OF nz(1)])
  also have "\<bar>x\<bar> \<le> \<bar>y\<bar>" using assms by simp
  also have "\<bar>y\<bar> < 2 powi (binade y + 1)" by (rule binade_bounds(2) [OF nz(2)])
  finally have "binade x < binade y + 1" by (rule pow2_less_imp)
  then show ?thesis by simp
qed

lemma ulp_times: "2 powi (e + 1) = 2 powi 53 * (2 powi (e - 52) :: real)"
proof -
  have "e + 1 = 53 + (e - 52)" by simp
  then have "(2::real) powi (e + 1) = 2 powi (53 + (e - 52))" by (rule arg_cong)
  also have "\<dots> = 2 powi 53 * 2 powi (e - 52)"
    by (rule power_int_add) simp
  finally show ?thesis .
qed

lemma ulp_times': "2 powi e = 2 powi 52 * (2 powi (e - 52) :: real)"
proof -
  have "e = 52 + (e - 52)" by simp
  then have "(2::real) powi e = 2 powi (52 + (e - 52))" by (rule arg_cong)
  also have "\<dots> = 2 powi 52 * 2 powi (e - 52)"
    by (rule power_int_add) simp
  finally show ?thesis .
qed

lemma round_double_le_top:
  assumes "0 \<le> x" "x \<le> 2 powi (max (binade x) (- 1022) + 1)"
  shows "round_double x \<le> 2 powi (max (binade x) (- 1022) + 1)"
proof -
  define e where "e = max (binade x) (- 1022)"
  have u: "ulp x = 2 powi (e - 52)" by (simp add: ulp_def e_def)
  have "x / ulp x \<le> 2 powi 53"
    using assms(2) ulp_pos [of x] unfolding e_def [symmetric] ulp_times [of e] u
    by (simp add: pos_divide_le_eq)
  also have "(2::real) powi 53 = real_of_int (2 ^ 53)" by simp
  finally have "round_even (x / ulp x) \<le> round_even (real_of_int (2 ^ 53))"
    by (rule round_even_mono)
  then have "round_even (x / ulp x) \<le> 2 ^ 53"
    by (simp only: round_even_of_int)
  then have "real_of_int (round_even (x / ulp x)) \<le> 2 powi 53"
    by simp
  then have "real_of_int (round_even (x / ulp x)) * ulp x \<le> 2 powi 53 * ulp x"
    using ulp_pos [of x] by (intro mult_right_mono) simp_all
  then show ?thesis
    unfolding e_def [symmetric] ulp_times [of e] u round_double_def .
qed

lemma round_double_ge_bottom:
  assumes "2 powi (max (binade x) (- 1022)) \<le> x"
  shows "2 powi (max (binade x) (- 1022)) \<le> round_double x"
proof -
  define e where "e = max (binade x) (- 1022)"
  have u: "ulp x = 2 powi (e - 52)" by (simp add: ulp_def e_def)
  have "(2::real) powi 52 \<le> x / ulp x"
    using assms ulp_pos [of x] unfolding e_def [symmetric] ulp_times' [of e] u
    by (simp add: pos_le_divide_eq)
  moreover have "(2::real) powi 52 = real_of_int (2 ^ 52)" by simp
  ultimately have "real_of_int (2 ^ 52) \<le> x / ulp x" by simp
  then have "round_even (real_of_int (2 ^ 52)) \<le> round_even (x / ulp x)"
    by (rule round_even_mono)
  then have "2 ^ 52 \<le> round_even (x / ulp x)"
    by (simp only: round_even_of_int)
  then have "2 powi 52 \<le> real_of_int (round_even (x / ulp x))"
    by simp
  then have "2 powi 52 * ulp x \<le> real_of_int (round_even (x / ulp x)) * ulp x"
    using ulp_pos [of x] by (intro mult_right_mono) simp_all
  then show ?thesis
    unfolding e_def [symmetric] ulp_times' [of e] u round_double_def .
qed

lemma round_double_mono:
  assumes "0 \<le> x" "x \<le> y"
  shows "round_double x \<le> round_double y"
proof (cases "x = 0")
  case True
  then show ?thesis
    using round_double_nonneg [of y] assms by (simp add: round_double_0)
next
  case False
  then have x: "0 < x" and y: "0 < y" using assms by simp_all
  define ex where "ex = max (binade x) (- 1022)"
  define ey where "ey = max (binade y) (- 1022)"
  have le: "ex \<le> ey"
    using binade_mono_pos [OF x assms(2)] by (simp add: ex_def ey_def)
  show ?thesis
  proof (cases "ex = ey")
    case True
    then have u: "ulp x = ulp y" by (simp add: ulp_def ex_def ey_def)
    have "x / ulp y \<le> y / ulp y"
      using assms(2) ulp_pos [of y] by (simp add: divide_right_mono)
    then have "round_even (x / ulp y) \<le> round_even (y / ulp y)"
      by (rule round_even_mono)
    then have "real_of_int (round_even (x / ulp y)) * ulp y \<le> real_of_int (round_even (y / ulp y)) * ulp y"
      using ulp_pos [of y] by (intro mult_right_mono) simp_all
    then show ?thesis by (simp add: round_double_def u)
  next
    case False
    with le have lt: "ex < ey" by simp
    have "- 1022 \<le> ex" by (simp add: ex_def)
    with lt have ey: "ey = binade y" by (simp add: ey_def)
    have "x < 2 powi (binade x + 1)"
      using binade_bounds(2) [of x] x by simp
    also have "\<dots> \<le> 2 powi (ex + 1)"
      by (rule power_int_increasing) (simp_all add: ex_def)
    finally have "x \<le> 2 powi (ex + 1)" by simp
    then have "round_double x \<le> 2 powi (ex + 1)"
      unfolding ex_def using assms(1) by (intro round_double_le_top) simp_all
    also have "(2::real) powi (ex + 1) \<le> 2 powi ey"
      using lt by (intro power_int_increasing) simp_all
    also have "2 powi ey \<le> round_double y"
    proof -
      have "2 powi ey \<le> y"
        using binade_bounds(1) [of y] y by (simp add: ey)
      then show ?thesis
        unfolding ey_def by (rule round_double_ge_bottom)
    qed
    finally show ?thesis .
  qed
qed

lemma round_double_1: "round_double 1 = 1"
  by (simp add: round_double_def ulp_def binade_def expo_up.simps round_even_def)

lemma round_double_3_2: "round_double (3/2) = 3/2"
  by (simp add: round_double_def ulp_def binade_def expo_up.simps round_even_def)

lemma ulp_le:
  assumes "x \<noteq> 0" "\<bar>x\<bar> < 2 powi e" "- 1021 \<le> e"
  shows "ulp x \<le> 2 powi (e - 53)"
proof -
  have "2 powi binade x \<le> \<bar>x\<bar>" by (rule binade_bounds(1) [OF assms(1)])
  also note assms(2)
  finally have "binade x < e" by (rule pow2_less_imp)
  then have "max (binade x) (- 1022) - 52 \<le> e - 53"
    using assms(3) by simp
  then show ?thesis
    unfolding ulp_def by (rule power_int_increasing) simp
qed

lemma fmul_nonneg: "0 \<le> x \<Longrightarrow> 0 \<le> y \<Longrightarrow> 0 \<le> fmul x y"
  by (simp add: fmul_def round_double_nonneg)

lemmas double_eval =
  round_double_def ulp_def binade_def expo_up.simps expo_down.simps round_even_def
  fmul_def fadd_def float_lit_def int_truediv_def

section \<open>Truncation and the derived integer parameters\<close>

lemma py_int_nonneg: "0 \<le> x \<Longrightarrow> 0 \<le> py_int x"
  by (simp add: py_int_def)

lemma py_int_le: "0 \<le> x \<Longrightarrow> real_of_int (py_int x) \<le> x"
  by (simp add: py_int_def)

lemma py_int_floor: "0 \<le> x \<Longrightarrow> py_int x = \<lfloor>x\<rfloor>"
  by (simp add: py_int_def)

lemma oil_kernel_size_odd: "oil_kernel_size t mod 2 = 1"
  unfolding oil_kernel_size_def Let_def by (simp add: max_def) presburger

lemma oil_kernel_size_ge3: "3 \<le> oil_kernel_size t"
  unfolding oil_kernel_size_def Let_def by simp

text \<open>
  Rounding is visible in the kernel size: at the double just below \<open>1/2\<close> the sum
  \<open>3 + intensity * 2\<close> rounds up to \<open>4.0\<close>, and the size is 5, not 3.
\<close>

lemma oil_kernel_size_below_half: "oil_kernel_size (9007199254740991 / 2 ^ 54) = 5"
  by (simp add: oil_kernel_size_def py_int_def double_eval)

lemma simulate_oil_paint_Inr:
  "simulate_oil_paint lib img t =
     Inr (enhance_sharpness lib (fadd 1 (fmul t 0.5)) (median_rank lib (oil_kernel_size t) img))"
  using oil_kernel_size_odd [of t] by (simp add: simulate_oil_paint_def median_filter_def)

text \<open>
  Claim C7. For every non-negative intensity the kernel size that \<open>simulate_oil_paint\<close>
  computes is odd and at least 3, so the median filter accepts it and the smoothing step
  returns the sharpened, median-filtered image. (The parity repair and the final
  \<open>max\<close> are integer operations, so the same holds for a negative intensity:
  \<open>oil_kernel_size_odd\<close>, \<open>oil_kernel_size_ge3\<close>.)
\<close>

theorem C7_median_kernel_odd_ge3:
  "0 \<le> t \<Longrightarrow>
     oil_kernel_size t mod 2 = 1 \<and> 3 \<le> oil_kernel_size t \<and>
     simulate_oil_paint lib img t =
       Inr (enhance_sharpness lib (fadd 1 (fmul t 0.5)) (median_rank lib (oil_kernel_size t) img))"
  by (simp add: oil_kernel_size_odd oil_kernel_size_ge3 simulate_oil_paint_Inr)

text \<open>
  Witness for C7 at intensity \<open>1/2\<close>: \<open>int(3 + 1) = 4\<close> is even and is repaired to 5.
\<close>

theorem C7_median_kernel_witness:
  "(0::real) \<le> 1/2 \<and> oil_kernel_size (1/2) = 5 \<and>
   oil_kernel_size (1/2) mod 2 = 1 \<and> 3 \<le> oil_kernel_size (1/2)"
proof -
  have v: "oil_kernel_size (1/2) = 5"
    by (simp add: oil_kernel_size_def py_int_def double_eval)
  show ?thesis
    using C7_median_kernel_odd_ge3 [of "1/2"] v by simp
qed

text \<open>
  Claim C4, as stated: the bit depth of the posterization equals
  \<open>max(1, 8 - 2 * intensity)\<close>. At intensity \<open>1/4\<close> the code computes
  \<open>max(1, 8 - int(0.5)) = 8\<close>, while the stated formula gives \<open>7.5\<close>.
\<close>

theorem C4_poster_bits_counterexample:
  "poster_bits (1/4) = 8 \<and> max 1 (8 - 2 * (1/4 :: real)) = 15/2 \<and>
   real_of_int (poster_bits (1/4)) \<noteq> max 1 (8 - 2 * (1/4))"
  by (simp add: poster_bits_def py_int_def)

text \<open>
  Claim C4, amended. For every non-negative intensity the bit depth is
  \<open>max(1, 8 - trunc(2 * intensity))\<close>, where \<open>trunc\<close> drops the fractional part (the
  floor, on a non-negative number); it is at least 1 however large the intensity, and
  at most 8, so \<open>posterize\<close> accepts it.
\<close>

theorem C4_poster_bits_truncated:
  "0 \<le> t \<Longrightarrow>
     poster_bits t = max 1 (8 - \<lfloor>2 * t\<rfloor>) \<and> 1 \<le> poster_bits t \<and> poster_bits t \<le> 8 \<and>
     posterize lib img (poster_bits t) = Inr (posterize_bits lib (poster_bits t) img)"
proof -
  assume t: "0 \<le> t"
  then have f: "py_int (t * 2) = \<lfloor>2 * t\<rfloor>" and n: "0 \<le> py_int (t * 2)"
    by (simp_all add: py_int_def mult.commute)
  have v: "poster_bits t = max 1 (8 - \<lfloor>2 * t\<rfloor>)"
    by (simp add: poster_bits_def f)
  have b: "1 \<le> poster_bits t" "poster_bits t \<le> 8"
    using n by (simp_all add: poster_bits_def)
  then have "posterize lib img (poster_bits t) = Inr (posterize_bits lib (poster_bits t) img)"
    by (simp add: posterize_def)
  with v b show ?thesis by simp
qed

text \<open>
  Witness for C4 (amended) at two intensities: \<open>3/2\<close>, the largest the ramp reaches,
  and \<open>100\<close>, where the clamp to 1 applies.
\<close>

theorem C4_poster_bits_witness:
  "(0::real) \<le> 100 \<and> poster_bits 100 = 1 \<and> poster_bits 100 = max 1 (8 - \<lfloor>2 * (100::real)\<rfloor>)"
proof -
  have v: "poster_bits 100 = 1"
    by (simp add: poster_bits_def py_int_def)
  show ?thesis
    using C4_poster_bits_truncated [of 100] v by simp
qed

section \<open>The loops of the noise step\<close>

lemma for_each_append:
  "for_each body (xs @ ys) s =
     (case for_each body xs s of Inl e \<Rightarrow> Inl e | Inr s' \<Rightarrow> for_each body ys s')"
  by (induction xs arbitrary: s) (auto split: sum.splits)

lemma randint_noise:
  "0 \<le> t \<Longrightarrow>
     randint (- py_int (fmul t 30)) (py_int (fmul t 30)) (ent j) = Inr (noise_draw ent t j)"
  using py_int_nonneg [OF fmul_nonneg [of t 30]] by (simp add: randint_def noise_draw_def)

lemma noise_draw_bounds:
  assumes "0 \<le> t"
  shows "- py_int (fmul t 30) \<le> noise_draw ent t j" and "noise_draw ent t j \<le> py_int (fmul t 30)"
proof -
  have K: "0 \<le> py_int (fmul t 30)" using assms by (simp add: py_int_nonneg fmul_nonneg)
  then have p: "0 < 2 * py_int (fmul t 30) + 1" by simp
  have "0 \<le> int (ent j) mod (2 * py_int (fmul t 30) + 1)"
    using p by (rule pos_mod_sign)
  moreover have "int (ent j) mod (2 * py_int (fmul t 30) + 1) < 2 * py_int (fmul t 30) + 1"
    using p by (rule pos_mod_bound)
  ultimately show "- py_int (fmul t 30) \<le> noise_draw ent t j" and "noise_draw ent t j \<le> py_int (fmul t 30)"
    by (simp_all add: noise_draw_def)
qed

lemma noise_pixel_eq:
  "0 \<le> t \<Longrightarrow>
     noise_pixel ent t xy (px, k) = Inr (px(xy := noisy (noise_draw ent t k) (px xy)), Suc k)"
  by (simp add: noise_pixel_def randint_noise noisy_def split: prod.splits)

lemma noise_column:
  assumes "0 \<le> t"
  shows "for_each (\<lambda>y. noise_pixel ent t (x, y)) [0..<n] (px, k) =
           Inr (\<lambda>p. if fst p = x \<and> snd p < n
                     then noisy (noise_draw ent t (k + snd p)) (px p) else px p,
                k + n)"
proof (induction n)
  case 0
  show ?case by simp
next
  case (Suc n)
  show ?case
    by (simp add: for_each_append Suc noise_pixel_eq [OF assms])
       (auto simp: fun_eq_iff less_Suc_eq)
qed

lemma noise_columns:
  assumes "0 \<le> t"
  shows "for_each (\<lambda>x. for_each (\<lambda>y. noise_pixel ent t (x, y)) [0..<h]) [0..<m] (px, k) =
           Inr (\<lambda>p. if fst p < m \<and> snd p < h
                     then noisy (noise_draw ent t (k + fst p * h + snd p)) (px p) else px p,
                k + m * h)"
proof (induction m)
  case 0
  show ?case by simp
next
  case (Suc m)
  show ?case
    by (simp add: for_each_append Suc noise_column [OF assms])
       (auto simp: fun_eq_iff less_Suc_eq add.assoc)
qed

lemma add_pixel_noise_result:
  assumes "0 \<le> t"
  shows "add_pixel_noise ent img t k =
           Inr (img\<lparr>pixels := (\<lambda>p. if fst p < width img \<and> snd p < height img
                     then noisy (noise_draw ent t (k + fst p * height img + snd p)) (pixels img p)
                     else pixels img p)\<rparr>,
                k + width img * height img)"
  by (simp add: add_pixel_noise_def noise_columns [OF assms])

lemma clamp_byte_range: "0 \<le> clamp_byte v \<and> clamp_byte v \<le> 255"
  by (simp add: clamp_byte_def)

lemma uint_clamp_byte: "uint (word_of_int (clamp_byte v) :: channel) = clamp_byte v"
proof -
  have "0 \<le> clamp_byte v" "clamp_byte v < 2 ^ LENGTH(8)"
    using clamp_byte_range [of v] by simp_all
  then show ?thesis by (simp add: uint_word_of_int take_bit_int_eq_self)
qed

lemma channel_range: "0 \<le> uint (c :: channel) \<and> uint c \<le> 255"
proof -
  have "uint c < 2 ^ LENGTH(8)" by (rule uint_lt2p)
  then show ?thesis by simp
qed

lemma clamp_byte_dist:
  assumes "0 \<le> c" "c \<le> 255"
  shows "\<bar>clamp_byte (c + n) - c\<bar> \<le> \<bar>n\<bar>"
  using assms by (simp add: clamp_byte_def max_def min_def)

section \<open>The noise step on a pixel and on an image\<close>

lemma noisy_channel_bound:
  fixes c :: channel
  assumes t: "0 \<le> t"
  shows "\<bar>real_of_int (uint (word_of_int (clamp_byte (uint c + noise_draw ent t j)) :: channel) - uint c)\<bar>
           \<le> fmul t 30"
proof -
  let ?n = "noise_draw ent t j"
  have "\<bar>clamp_byte (uint c + ?n) - uint c\<bar> \<le> \<bar>?n\<bar>"
    using channel_range [of c] by (intro clamp_byte_dist) simp_all
  also have "\<bar>?n\<bar> \<le> py_int (fmul t 30)"
    using noise_draw_bounds [OF t, of ent j] by simp
  finally have A: "\<bar>clamp_byte (uint c + ?n) - uint c\<bar> \<le> py_int (fmul t 30)" .
  have B: "real_of_int (py_int (fmul t 30)) \<le> fmul t 30"
    using t by (intro py_int_le fmul_nonneg) simp_all
  have C: "real_of_int \<bar>clamp_byte (uint c + ?n) - uint c\<bar> \<le> real_of_int (py_int (fmul t 30))"
    using A by (simp only: of_int_le_iff)
  have D: "\<bar>real_of_int (clamp_byte (uint c + ?n) - uint c)\<bar>
             = real_of_int \<bar>clamp_byte (uint c + ?n) - uint c\<bar>"
    by (simp only: of_int_abs)
  have "\<bar>real_of_int (clamp_byte (uint c + ?n) - uint c)\<bar> \<le> fmul t 30"
    using B C D by linarith
  then show ?thesis
    by (simp only: uint_clamp_byte)
qed

lemma noisy_pixel_bound:
  assumes t: "0 \<le> t"
  shows "case p of (r, g, b) \<Rightarrow>
         case noisy (noise_draw ent t j) p of (r', g', b') \<Rightarrow>
           0 \<le> uint r' \<and> uint r' \<le> 255 \<and> \<bar>real_of_int (uint r' - uint r)\<bar> \<le> fmul t 30 \<and>
           0 \<le> uint g' \<and> uint g' \<le> 255 \<and> \<bar>real_of_int (uint g' - uint g)\<bar> \<le> fmul t 30 \<and>
           0 \<le> uint b' \<and> uint b' \<le> 255 \<and> \<bar>real_of_int (uint b' - uint b)\<bar> \<le> fmul t 30"
proof -
  obtain r g b where p: "p = (r, g, b)"
    by (cases p) auto
  show ?thesis
    using noisy_channel_bound [OF t, of r ent j] noisy_channel_bound [OF t, of g ent j]
      noisy_channel_bound [OF t, of b ent j]
    by (simp add: p noisy_def channel_range)
qed

text \<open>
  Claim C8, as stated: after the noise step a channel differs from its input by at
  most \<open>30 * intensity\<close>. The intensity of step 1 of a 9-step run is the double
  \<open>6004799503160661 / 2 ^ 55\<close>, just below \<open>1/6\<close>; its product with 30 rounds to the
  double \<open>5.0\<close>, so the draws range over \<open>-5..5\<close>, and a draw of 5 moves each channel
  of the pixel \<open>(10, 20, 30)\<close> by 5, which is more than \<open>30 * intensity\<close>.
\<close>

theorem C8_noise_counterexample:
  "ramp_intensity 1 9 = Inr (6004799503160661 / 2 ^ 55) \<and>
   add_pixel_noise (\<lambda>j. 10) \<lparr>width = 1, height = 1, pixels = (\<lambda>p. (10, 20, 30))\<rparr>
       (6004799503160661 / 2 ^ 55) 0 =
     Inr (\<lparr>width = 1, height = 1, pixels = (\<lambda>p. (10, 20, 30))((0, 0) := (15, 25, 35))\<rparr>, 1) \<and>
   30 * (6004799503160661 / 2 ^ 55 :: real) < 5 \<and>
   \<not> \<bar>real_of_int (uint (15 :: channel) - uint (10 :: channel))\<bar> \<le> 30 * (6004799503160661 / 2 ^ 55)"
proof -
  have r: "ramp_intensity 1 9 = Inr (6004799503160661 / 2 ^ 55)"
    by (simp add: ramp_intensity_def double_eval)
  have n: "add_pixel_noise (\<lambda>j. 10) \<lparr>width = 1, height = 1, pixels = (\<lambda>p. (10, 20, 30))\<rparr>
       (6004799503160661 / 2 ^ 55) 0 =
     Inr (\<lparr>width = 1, height = 1, pixels = (\<lambda>p. (10, 20, 30))((0, 0) := (15, 25, 35))\<rparr>, 1)"
    by (simp add: add_pixel_noise_def noise_pixel_def randint_def py_int_def clamp_byte_def
        double_eval)
  have b: "30 * (6004799503160661 / 2 ^ 55 :: real) < 5"
    by simp
  have c: "\<not> \<bar>real_of_int (uint (15 :: channel) - uint (10 :: channel))\<bar>
             \<le> 30 * (6004799503160661 / 2 ^ 55)"
    by simp
  from r n b c show ?thesis by (intro conjI)
qed

text \<open>
  Claim C8, amended. For every RGB image, every non-negative intensity and every
  realization of the random draws (\<open>ent\<close>, from any position \<open>k\<close>), the noise step
  returns an image of the same size in which each channel of each pixel lies in
  \<open>[0, 255]\<close> and differs from the channel it replaces by at most the product
  \<open>intensity * 30\<close> as the program computes it: the double nearest to the exact
  product, which is within half a unit in the last place of it.
\<close>

theorem C8_noise_bounded:
  assumes "0 \<le> t"
  shows "(\<exists>out k'. add_pixel_noise ent img t k = Inr (out, k') \<and>
           width out = width img \<and> height out = height img \<and>
           (\<forall>x<width img. \<forall>y<height img.
              (case pixels img (x, y) of (r, g, b) \<Rightarrow>
               case pixels out (x, y) of (r', g', b') \<Rightarrow>
                 0 \<le> uint r' \<and> uint r' \<le> 255 \<and> \<bar>real_of_int (uint r' - uint r)\<bar> \<le> fmul t 30 \<and>
                 0 \<le> uint g' \<and> uint g' \<le> 255 \<and> \<bar>real_of_int (uint g' - uint g)\<bar> \<le> fmul t 30 \<and>
                 0 \<le> uint b' \<and> uint b' \<le> 255 \<and> \<bar>real_of_int (uint b' - uint b)\<bar> \<le> fmul t 30))) \<and>
         fmul t 30 = round_double (t * 30) \<and>
         \<bar>round_double (t * 30) - t * 30\<bar> \<le> ulp (t * 30) / 2"
proof -
  define out where "out = img\<lparr>pixels := (\<lambda>p. if fst p < width img \<and> snd p < height img
                     then noisy (noise_draw ent t (k + fst p * height img + snd p)) (pixels img p)
                     else pixels img p)\<rparr>"
  have r: "add_pixel_noise ent img t k = Inr (out, k + width img * height img)"
    unfolding out_def by (rule add_pixel_noise_result [OF assms])
  have sz: "width out = width img" "height out = height img"
    by (simp_all add: out_def)
  have px: "case pixels img (x, y) of (r, g, b) \<Rightarrow>
            case pixels out (x, y) of (r', g', b') \<Rightarrow>
              0 \<le> uint r' \<and> uint r' \<le> 255 \<and> \<bar>real_of_int (uint r' - uint r)\<bar> \<le> fmul t 30 \<and>
              0 \<le> uint g' \<and> uint g' \<le> 255 \<and> \<bar>real_of_int (uint g' - uint g)\<bar> \<le> fmul t 30 \<and>
              0 \<le> uint b' \<and> uint b' \<le> 255 \<and> \<bar>real_of_int (uint b' - uint b)\<bar> \<le> fmul t 30"
    if "x < width img" "y < height img" for x y
  proof -
    have e: "pixels out (x, y) = noisy (noise_draw ent t (k + x * height img + y)) (pixels img (x, y))"
      using that by (simp add: out_def)
    show ?thesis
      unfolding e by (rule noisy_pixel_bound [OF assms])
  qed
  have run: "\<exists>out k'. add_pixel_noise ent img t k = Inr (out, k') \<and>
           width out = width img \<and> height out = height img \<and>
           (\<forall>x<width img. \<forall>y<height img.
              (case pixels img (x, y) of (r, g, b) \<Rightarrow>
               case pixels out (x, y) of (r', g', b') \<Rightarrow>
                 0 \<le> uint r' \<and> uint r' \<le> 255 \<and> \<bar>real_of_int (uint r' - uint r)\<bar> \<le> fmul t 30 \<and>
                 0 \<le> uint g' \<and> uint g' \<le> 255 \<and> \<bar>real_of_int (uint g' - uint g)\<bar> \<le> fmul t 30 \<and>
                 0 \<le> uint b' \<and> uint b' \<le> 255 \<and> \<bar>real_of_int (uint b' - uint b)\<bar> \<le> fmul t 30))"
    apply (rule exI [of _ out])
    apply (rule exI [of _ "k + width img * height img"])
    apply (intro conjI allI impI)
       apply (rule r)
      apply (rule sz)
     apply (rule sz)
    apply (rule px)
     apply assumption+
    done
  have "fmul t 30 = round_double (t * 30)"
    by (simp add: fmul_def)
  with run round_double_error [of "t * 30"] show ?thesis
    by (intro conjI)
qed

text \<open>
  Witness for C8: a one-pixel image \<open>(250, 0, 100)\<close> at intensity \<open>1/2\<close>; the draw
  is 14, and the red channel is clamped at 255.
\<close>

theorem C8_noise_witness:
  "(0::real) \<le> 1/2 \<and>
   (\<exists>out k'. add_pixel_noise (\<lambda>j. 29) \<lparr>width = 1, height = 1, pixels = (\<lambda>p. (250, 0, 100))\<rparr> (1/2) 0
                 = Inr (out, k') \<and>
      pixels out (0, 0) = (255, 14, 114))"
proof -
  let ?img = "\<lparr>width = 1, height = 1, pixels = (\<lambda>p. (250, 0, 100) :: rgb)\<rparr>"
  have h: "(0::real) \<le> 1/2" by simp
  from C8_noise_bounded [OF h, of "\<lambda>j. 29" ?img 0]
  obtain out k' where r: "add_pixel_noise (\<lambda>j. 29) ?img (1/2) 0 = Inr (out, k')"
    by (elim exE conjE)
  have v: "pixels out (0, 0) = (255, 14, 114)"
    using r by (auto simp add: add_pixel_noise_def noise_pixel_def randint_def py_int_def
        clamp_byte_def double_eval)
  from h r v show ?thesis by blast
qed

text \<open>
  Claim C9. In the noise step one random value is drawn per pixel (the image of
  \<open>w * h\<close> pixels makes \<open>w * h\<close> draws, the pixel \<open>(x, y)\<close> takes the draw number
  \<open>x * h + y\<close>), and that single value is added to the red, the green and the blue
  channel of the pixel before clamping.
\<close>

theorem C9_one_draw_per_pixel:
  assumes "0 \<le> t"
  shows "\<exists>out. add_pixel_noise ent img t k = Inr (out, k + width img * height img) \<and>
           (\<forall>x<width img. \<forall>y<height img.
              \<exists>noise. randint (- py_int (fmul t 30)) (py_int (fmul t 30)) (ent (k + x * height img + y)) = Inr noise \<and>
                (case pixels img (x, y) of (r, g, b) \<Rightarrow>
                   pixels out (x, y) =
                     (word_of_int (clamp_byte (uint r + noise)),
                      word_of_int (clamp_byte (uint g + noise)),
                      word_of_int (clamp_byte (uint b + noise)))))"
  apply (simp only: add_pixel_noise_result [OF assms])
  apply (intro exI conjI)
   apply (rule refl)
  apply (clarsimp simp: randint_noise [OF assms] noisy_def split: prod.splits)
  done

text \<open>
  Witness for C9: two pixels \<open>(10, 20, 30)\<close> at intensity \<open>1/2\<close>; the draws are
  \<open>-15\<close> and \<open>-8\<close>, each applied to all three channels of its pixel.
\<close>

theorem C9_one_draw_witness:
  "(0::real) \<le> 1/2 \<and>
   (\<exists>out. add_pixel_noise (\<lambda>j. 7 * j) \<lparr>width = 2, height = 1, pixels = (\<lambda>p. (10, 20, 30))\<rparr> (1/2) 0
             = Inr (out, 2) \<and>
      pixels out (0, 0) = (0, 5, 15) \<and> pixels out (1, 0) = (2, 12, 22))"
proof -
  let ?img = "\<lparr>width = 2, height = 1, pixels = (\<lambda>p. (10, 20, 30) :: rgb)\<rparr>"
  have h: "(0::real) \<le> 1/2" by simp
  from C9_one_draw_per_pixel [OF h, of "\<lambda>j. 7 * j" ?img 0]
  obtain out where r: "add_pixel_noise (\<lambda>j. 7 * j) ?img (1/2) 0 = Inr (out, 0 + width ?img * height ?img)"
    by (elim exE conjE)
  then have r': "add_pixel_noise (\<lambda>j. 7 * j) ?img (1/2) 0 = Inr (out, 2)"
    by simp
  have u: "[0..<2] = [0, 1]"
    by (simp add: upt_rec)
  have v: "pixels out (0, 0) = (0, 5, 15)" "pixels out (1, 0) = (2, 12, 22)"
    using r' by (auto simp add: add_pixel_noise_def noise_pixel_def randint_def py_int_def
        clamp_byte_def u double_eval)
  from h r' v show ?thesis by blast
qed

section \<open>The chromatic aberration\<close>

lemma aberration_offsets_zero:
  assumes "0 \<le> t" "t < 1/2"
  shows "py_int (t * 2) = 0" and "py_int (t * 1) = 0"
  using assms by (simp_all add: py_int_def floor_eq_iff)

text \<open>
  Claim C10. For every RGB image and every intensity with \<open>0 \<le> intensity < 0.5\<close> both
  channel offsets of \<open>chromatic_aberration\<close> truncate to zero, and the step returns an
  image of the same size with the same value at every pixel.
\<close>

theorem C10_aberration_identity:
  assumes "0 \<le> t" "t < 1/2"
  shows "py_int (t * 2) = 0 \<and> - py_int (t * 1) = 0 \<and>
         (\<exists>out. chromatic_aberration img t = Inr out \<and>
            width out = width img \<and> height out = height img \<and>
            (\<forall>x<width img. \<forall>y<height img. pixels out (x, y) = pixels img (x, y)))"
  using aberration_offsets_zero [OF assms]
  by (simp add: chromatic_aberration_def image_split_def imagechops_offset_def image_merge_def)

text \<open>Witness for C10: a two-pixel image at intensity \<open>1/4\<close>.\<close>

theorem C10_aberration_witness:
  "(0::real) \<le> 1/4 \<and> (1/4::real) < 1/2 \<and>
   (\<exists>out. chromatic_aberration \<lparr>width = 2, height = 1, pixels = (\<lambda>p. (of_nat (fst p), 7, 9))\<rparr> (1/4)
             = Inr out \<and>
      pixels out (0, 0) = (0, 7, 9) \<and> pixels out (1, 0) = (1, 7, 9))"
proof -
  let ?img = "\<lparr>width = 2, height = 1, pixels = (\<lambda>p. (of_nat (fst p), 7, 9) :: rgb)\<rparr>"
  have h: "(0::real) \<le> 1/4" "(1/4::real) < 1/2" by simp_all
  from C10_aberration_identity [OF h, of ?img]
  obtain out where r: "chromatic_aberration ?img (1/4) = Inr out"
    and p: "\<forall>x<width ?img. \<forall>y<height ?img. pixels out (x, y) = pixels ?img (x, y)"
    by (elim exE conjE)
  from p have "pixels out (0, 0) = (0, 7, 9)" "pixels out (1, 0) = (1, 7, 9)"
    by simp_all
  with r h show ?thesis by simp
qed

section \<open>The intensity ramp\<close>

lemma ramp_quotient:
  assumes "1 \<le> i" "i \<le> N"
  shows "0 \<le> round_double (real_of_int i / real_of_int N)"
    and "round_double (real_of_int i / real_of_int N) \<le> 1"
    and "int_truediv i N = Inr (round_double (real_of_int i / real_of_int N))"
proof -
  have q: "0 \<le> real_of_int i / real_of_int N" "real_of_int i / real_of_int N \<le> 1"
    using assms by simp_all
  show 0: "0 \<le> round_double (real_of_int i / real_of_int N)"
    by (rule round_double_nonneg [OF q(1)])
  show 1: "round_double (real_of_int i / real_of_int N) \<le> 1"
    using round_double_mono [OF q] by (simp only: round_double_1)
  have "(1::real) < 2 powi 1024" by simp
  with 0 1 have "\<not> 2 powi 1024 \<le> \<bar>round_double (real_of_int i / real_of_int N)\<bar>"
    by linarith
  moreover have "N \<noteq> 0" using assms by simp
  ultimately show "int_truediv i N = Inr (round_double (real_of_int i / real_of_int N))"
    by (simp add: int_truediv_def)
qed

lemma ramp_intensity_step:
  assumes "1 \<le> i" "i \<le> N"
  shows "ramp_intensity i N = Inr (fmul (round_double (real_of_int i / real_of_int N)) 1.5)"
  by (simp only: ramp_intensity_def ramp_quotient(3) [OF assms] sum.case)

lemma ramp_intensity_mono:
  assumes "1 \<le> i" "i \<le> j" "j \<le> N"
  shows "fmul (round_double (real_of_int i / real_of_int N)) 1.5
           \<le> fmul (round_double (real_of_int j / real_of_int N)) 1.5"
proof -
  have iN: "i \<le> N" and j1: "1 \<le> j" using assms by simp_all
  have "0 \<le> real_of_int i / real_of_int N" "real_of_int i / real_of_int N \<le> real_of_int j / real_of_int N"
    using assms by (simp_all add: divide_right_mono)
  then have "round_double (real_of_int i / real_of_int N) \<le> round_double (real_of_int j / real_of_int N)"
    by (rule round_double_mono)
  then have "round_double (real_of_int i / real_of_int N) * 1.5
               \<le> round_double (real_of_int j / real_of_int N) * 1.5"
    by simp
  moreover have "0 \<le> round_double (real_of_int i / real_of_int N) * 1.5"
    using ramp_quotient(1) [OF assms(1) iN] by simp
  ultimately show ?thesis
    unfolding fmul_def by (rule round_double_mono [rotated])
qed

lemma ramp_intensity_accuracy:
  assumes "1 \<le> i" "i \<le> N"
  shows "\<bar>fmul (round_double (real_of_int i / real_of_int N)) 1.5
            - (real_of_int i / real_of_int N) * 1.5\<bar> \<le> 2 powi (- 52)"
proof -
  define q where "q = real_of_int i / real_of_int N"
  define fq where "fq = round_double q"
  have q: "0 < q" "q \<le> 1"
    using assms by (simp_all add: q_def)
  have fq: "0 \<le> fq" "fq \<le> 1"
    using ramp_quotient(1,2) [OF assms] by (simp_all add: fq_def q_def)
  have e1: "\<bar>fq - q\<bar> \<le> 2 powi (- 54)"
  proof (cases "q = 1")
    case True
    then show ?thesis by (simp add: fq_def round_double_1)
  next
    case False
    with q have "q \<noteq> 0" "\<bar>q\<bar> < 2 powi 0" by simp_all
    then have "ulp q \<le> 2 powi (0 - 53)"
      by (rule ulp_le) simp
    moreover have "\<bar>fq - q\<bar> \<le> ulp q / 2"
      unfolding fq_def by (rule round_double_error)
    ultimately show ?thesis by simp
  qed
  have e2: "\<bar>round_double (fq * 1.5) - fq * 1.5\<bar> \<le> 2 powi (- 53)"
  proof (cases "fq = 0")
    case True
    then show ?thesis by (simp add: round_double_0)
  next
    case False
    with fq have "fq * 1.5 \<noteq> 0" "\<bar>fq * 1.5\<bar> < 2 powi 1" by simp_all
    then have "ulp (fq * 1.5) \<le> 2 powi (1 - 53)"
      by (rule ulp_le) simp
    moreover have "\<bar>round_double (fq * 1.5) - fq * 1.5\<bar> \<le> ulp (fq * 1.5) / 2"
      by (rule round_double_error)
    ultimately show ?thesis by simp
  qed
  define A where "A = round_double (fq * 1.5) - fq * 1.5"
  define B where "B = 1.5 * (fq - q)"
  have s: "round_double (fq * 1.5) - q * 1.5 = A + B"
    by (simp add: A_def B_def field_simps)
  have "\<bar>B\<bar> = \<bar>1.5\<bar> * \<bar>fq - q\<bar>"
    unfolding B_def by (rule abs_mult)
  then have "\<bar>B\<bar> = 1.5 * \<bar>fq - q\<bar>"
    by simp
  then have b: "\<bar>B\<bar> \<le> 1.5 * 2 powi (- 54)"
    using e1 by simp
  have a: "\<bar>A\<bar> \<le> 2 powi (- 53)"
    using e2 by (simp only: A_def)
  have "\<bar>A + B\<bar> \<le> \<bar>A\<bar> + \<bar>B\<bar>"
    by (rule abs_triangle_ineq)
  also have "\<dots> \<le> 2 powi (- 53) + 1.5 * 2 powi (- 54)"
    using a b by (rule add_mono)
  also have "\<dots> \<le> 2 powi (- 52)"
    by simp
  finally have "\<bar>round_double (fq * 1.5) - q * 1.5\<bar> \<le> 2 powi (- 52)"
    by (simp only: s)
  then show ?thesis
    by (simp only: fmul_def fq_def q_def)
qed

text \<open>
  Rounding is visible in the noise range: at step 3 of 5 the intensity is
  \<open>0.8999999999999999\<close> and the draws range over \<open>-26..26\<close>, where the exact
  \<open>9/10\<close> would give \<open>-27..27\<close>.
\<close>

lemma noise_range_step_3_of_5:
  "ramp_intensity 3 5 = Inr (2026619832316723 / 2 ^ 51) \<and>
   py_int (fmul (2026619832316723 / 2 ^ 51) 30) = 26 \<and> py_int (9/10 * 30) = 27"
  by (simp add: ramp_intensity_def py_int_def double_eval)

text \<open>
  Claim C2, as stated: the intensity at step \<open>i\<close> of \<open>N\<close> equals \<open>(i / N) * 1.5\<close>. At
  step 2 of 5 the quotient rounds to the double above \<open>2/5\<close> and the product to the
  double above \<open>3/5\<close>: the program passes \<open>0.6000000000000001\<close>, which is
  \<open>1351079888211149 / 2 ^ 51\<close>, and not \<open>3/5\<close>.
\<close>

theorem C2_intensity_counterexample:
  "ramp_intensity 2 5 = Inr (1351079888211149 / 2 ^ 51) \<and>
   (1351079888211149 / 2 ^ 51 :: real) \<noteq> (2 / 5) * 1.5 \<and>
   ramp_intensity 2 5 \<noteq> Inr ((real_of_int 2 / real_of_int 5) * 1.5)"
  by (simp add: ramp_intensity_def double_eval)

text \<open>
  Claim C2, amended. For every step count \<open>N \<ge> 1\<close> and every step \<open>i\<close> in \<open>1..N\<close>, the
  intensity that \<open>progressive_glitch\<close> passes to its layers is \<open>(i / N) * 1.5\<close> as
  computed in double precision: the quotient rounded to the nearest double, times
  \<open>1.5\<close>, rounded again; it lies within \<open>2 ^ -52\<close> of the exact value. It is
  non-decreasing in the step, and at the final step \<open>i = N\<close> it is exactly \<open>1.5\<close>.
\<close>

theorem C2_intensity_ramp:
  assumes "1 \<le> N" "1 \<le> i" "i \<le> N"
  shows "ramp_intensity i N = Inr (round_double (round_double (real_of_int i / real_of_int N) * 1.5)) \<and>
         \<bar>round_double (round_double (real_of_int i / real_of_int N) * 1.5)
            - (real_of_int i / real_of_int N) * 1.5\<bar> \<le> 2 powi (- 52) \<and>
         progressive_glitch lib ent img i N k =
           glitch_layers lib ent img
             (round_double (round_double (real_of_int i / real_of_int N) * 1.5)) k \<and>
         (\<forall>j. i \<le> j \<and> j \<le> N \<longrightarrow>
            (\<exists>a b. ramp_intensity i N = Inr a \<and> ramp_intensity j N = Inr b \<and> a \<le> b)) \<and>
         ramp_intensity N N = Inr 1.5"
proof -
  have r: "ramp_intensity i N = Inr (round_double (round_double (real_of_int i / real_of_int N) * 1.5))"
    using ramp_intensity_step [OF assms(2,3)] by (simp only: fmul_def)
  have acc: "\<bar>round_double (round_double (real_of_int i / real_of_int N) * 1.5)
            - (real_of_int i / real_of_int N) * 1.5\<bar> \<le> 2 powi (- 52)"
    using ramp_intensity_accuracy [OF assms(2,3)] by (simp only: fmul_def)
  have g: "progressive_glitch lib ent img i N k =
           glitch_layers lib ent img
             (round_double (round_double (real_of_int i / real_of_int N) * 1.5)) k"
    by (simp only: progressive_glitch_def r sum.case)
  have m: "\<forall>j. i \<le> j \<and> j \<le> N \<longrightarrow>
            (\<exists>a b. ramp_intensity i N = Inr a \<and> ramp_intensity j N = Inr b \<and> a \<le> b)"
  proof (intro allI impI)
    fix j assume j: "i \<le> j \<and> j \<le> N"
    then have j1: "1 \<le> j" and jN: "j \<le> N" and ij: "i \<le> j" using assms(2) by simp_all
    from ramp_intensity_step [OF assms(2,3)] ramp_intensity_step [OF j1 jN]
      ramp_intensity_mono [OF assms(2) ij jN]
    show "\<exists>a b. ramp_intensity i N = Inr a \<and> ramp_intensity j N = Inr b \<and> a \<le> b"
      by (intro exI conjI)
  qed
  have "real_of_int N / real_of_int N = 1"
    using assms(1) by simp
  with ramp_intensity_step [OF assms(1) order_refl]
  have top: "ramp_intensity N N = Inr 1.5"
    by (simp add: fmul_def round_double_1 round_double_3_2)
  from r acc g m top show ?thesis
    by (intro conjI)
qed

text \<open>
  Witness for C2 (amended): five steps; step 2 has intensity \<open>0.6000000000000001\<close>,
  step 3 has \<open>0.8999999999999999\<close>, step 5 has \<open>1.5\<close>.
\<close>

theorem C2_intensity_witness:
  "(1::int) \<le> 5 \<and> (1::int) \<le> 2 \<and> (2::int) \<le> 5 \<and>
   ramp_intensity 2 5 = Inr (1351079888211149 / 2 ^ 51) \<and>
   ramp_intensity 3 5 = Inr (2026619832316723 / 2 ^ 51) \<and>
   ramp_intensity 5 5 = Inr (3/2) \<and>
   (\<exists>a b. ramp_intensity 2 5 = Inr a \<and> ramp_intensity 3 5 = Inr b \<and> a \<le> b)"
proof -
  have h: "(1::int) \<le> 5" "(1::int) \<le> 2" "(2::int) \<le> 5" by simp_all
  have m: "(2::int) \<le> 3 \<and> (3::int) \<le> 5" by simp
  have v: "ramp_intensity 2 5 = Inr (1351079888211149 / 2 ^ 51)"
    "ramp_intensity 3 5 = Inr (2026619832316723 / 2 ^ 51)"
    by (simp_all add: ramp_intensity_def double_eval)
  from C2_intensity_ramp [OF h]
  have c: "\<forall>j. 2 \<le> j \<and> j \<le> 5 \<longrightarrow>
            (\<exists>a b. ramp_intensity 2 5 = Inr a \<and> ramp_intensity j 5 = Inr b \<and> a \<le> b)"
    and d: "ramp_intensity 5 5 = Inr 1.5"
    by blast+
  from c m have e: "\<exists>a b. ramp_intensity 2 5 = Inr a \<and> ramp_intensity 3 5 = Inr b \<and> a \<le> b"
    by blast
  from d have d': "ramp_intensity 5 5 = Inr (3/2)" by simp
  from h v d' e show ?thesis by (intro conjI)
qed

section \<open>Decimal numerals and paths\<close>

lemma str_nat_nonempty: "str_nat n \<noteq> []"
  by (subst str_nat.simps) simp

lemma digit_char_inj:
  assumes "a < 10" "b < 10" "digit_char a = digit_char b"
  shows "a = b"
proof -
  have d: "distinct ''0123456789''" by simp
  have l: "length ''0123456789'' = 10" by simp
  show ?thesis
    using assms nth_eq_iff_index_eq [OF d, of a b] by (simp only: digit_char_def l)
qed

lemma str_nat_inj: "str_nat m = str_nat n \<Longrightarrow> m = n"
proof (induction m arbitrary: n rule: str_nat.induct)
  case (1 m)
  show ?case
  proof (cases "m < 10")
    case True
    note m = this
    show ?thesis
    proof (cases "n < 10")
      case True
      with m "1.prems" show ?thesis
        by (simp add: str_nat.simps [of m] str_nat.simps [of n] digit_char_inj)
    next
      case False
      with m "1.prems" show ?thesis
        using str_nat_nonempty [of "n div 10"]
        by (simp add: str_nat.simps [of m] str_nat.simps [of n])
    qed
  next
    case False
    note m = this
    show ?thesis
    proof (cases "n < 10")
      case True
      with m "1.prems" show ?thesis
        using str_nat_nonempty [of "m div 10"]
        by (simp add: str_nat.simps [of m] str_nat.simps [of n])
    next
      case False
      with m "1.prems" have e: "str_nat (m div 10) = str_nat (n div 10)"
        and d: "digit_char (m mod 10) = digit_char (n mod 10)"
        by (simp_all add: str_nat.simps [of m] str_nat.simps [of n])
      from "1.IH" [OF m e] have q: "m div 10 = n div 10" .
      from d have r: "m mod 10 = n mod 10"
        by (intro digit_char_inj) simp_all
      from q r show ?thesis
        by (metis div_mult_mod_eq)
    qed
  qed
qed

lemma py_str_int: "py_str (int n) = str_nat n"
  by (simp add: py_str_def)

lemma os_path_join_relative:
  "b \<noteq> [] \<Longrightarrow> hd b \<noteq> CHR ''/'' \<Longrightarrow> os_path_join a b = dir_prefix a @ b"
  by (simp add: os_path_join_def dir_prefix_def)

lemma jack_name_eq: "jack_name d i = dir_prefix d @ ''jack_'' @ str_nat i @ ''.png''"
  by (simp add: jack_name_def os_path_join_relative py_str_int)

lemma jack_name_inj: "jack_name d i = jack_name d j \<Longrightarrow> i = j"
  by (simp add: jack_name_eq str_nat_inj)

lemma jack_name_0: "os_path_join d ''jack_0.png'' = jack_name d 0"
  by (simp add: jack_name_def py_str_def str_nat.simps digit_char_def)

lemma jack_name_last: "last (jack_name d i) = CHR ''g''"
  by (simp add: jack_name_eq)

lemma caption_file_last: "last (os_path_join a ''cyber_jack_thread.txt'') = CHR ''t''"
  by (simp add: os_path_join_relative)

lemma caption_file_not_jack: "os_path_join a ''cyber_jack_thread.txt'' \<noteq> jack_name d i"
  using jack_name_last [of d i] caption_file_last [of a] by auto

section \<open>Every step of the ramp succeeds\<close>

lemma upto_1_int: "[1..int n] = map int [1..<Suc n]"
proof (induction n)
  case 0
  show ?case by simp
next
  case (Suc n)
  have "[1..int (Suc n)] = [1..int (Suc n) - 1] @ [int (Suc n)]"
    by (rule upto_rec2) simp
  with Suc show ?case by simp
qed

lemma chromatic_aberration_Inr: "\<exists>out. chromatic_aberration img t = Inr out"
  by (simp add: chromatic_aberration_def image_split_def imagechops_offset_def image_merge_def)

lemma poster_bits_le8: "0 \<le> t \<Longrightarrow> poster_bits t \<le> 8"
  using py_int_nonneg [of "t * 2"] by (simp add: poster_bits_def)

lemma posterize_Inr:
  "0 \<le> t \<Longrightarrow> posterize lib img (poster_bits t) = Inr (posterize_bits lib (poster_bits t) img)"
  using poster_bits_le8 [of t] by (simp add: posterize_def)

lemma add_pixel_noise_Inr:
  "0 \<le> t \<Longrightarrow> \<exists>out k'. add_pixel_noise ent img t k = Inr (out, k')"
  by (simp add: add_pixel_noise_result)

lemma glitch_layers_Inr:
  assumes t: "0 \<le> t"
  shows "\<exists>out k'. glitch_layers lib ent img t k = Inr (out, k')"
proof -
  define surge where "surge = enhance_color lib (fadd (float_lit 1.1) (fmul t (float_lit 0.4)))
                (enhance_contrast lib (fadd 1 (fmul t 0.5)) (gaussian_blur lib (fmul t 1.5) img))"
  define post where "post = posterize_bits lib (poster_bits t) surge"
  have p: "posterize lib surge (poster_bits t) = Inr post"
    unfolding post_def by (rule posterize_Inr [OF t])
  from add_pixel_noise_Inr [OF t, of ent post k]
  obtain noised k' where n: "add_pixel_noise ent post t k = Inr (noised, k')"
    by (elim exE)
  define glitched where "glitched =
     blend lib noised (enhance_brightness lib (fmul t (float_lit 0.3)) (find_edges lib noised))
       (fmul t (float_lit 0.2))"
  from chromatic_aberration_Inr [of glitched t]
  obtain ab where a: "chromatic_aberration glitched t = Inr ab"
    by (elim exE)
  have "glitch_layers lib ent img t k =
          Inr (emboss_relief lib (watercolor_wash lib
                 (enhance_sharpness lib (fadd 1 (fmul t 0.5))
                    (median_rank lib (oil_kernel_size t) (circuit_etch lib ab t))) t) t, k')"
    unfolding glitch_layers_def Let_def surge_def [symmetric] p sum.case n prod.case
      glitched_def [symmetric] a simulate_oil_paint_Inr
    by (rule refl)
  then show ?thesis by (intro exI)
qed

lemma progressive_glitch_Inr:
  assumes "1 \<le> i" "i \<le> N"
  shows "\<exists>out k'. progressive_glitch lib ent img i N k = Inr (out, k')"
proof -
  have "0 \<le> fmul (round_double (real_of_int i / real_of_int N)) 1.5"
    using ramp_quotient(1) [OF assms] by (intro fmul_nonneg) simp_all
  from glitch_layers_Inr [OF this, of lib ent img k] show ?thesis
    by (simp only: progressive_glitch_def ramp_intensity_step [OF assms] sum.case)
qed

lemma jack_step_Inr:
  assumes "1 \<le> i" "i \<le> N"
  shows "\<exists>out k'. jack_step lib ent (int N) d (int i) (cur, vs, fs, k) =
           Inr (out, vs @ [jack_name d i], fs(jack_name d i \<mapsto> save_png lib out), k')"
proof -
  have "1 \<le> int i" "int i \<le> int N" using assms by simp_all
  from progressive_glitch_Inr [OF this, of lib ent cur k]
  obtain out k' where "progressive_glitch lib ent cur (int i) (int N) k = Inr (out, k')"
    by (elim exE)
  then have "jack_step lib ent (int N) d (int i) (cur, vs, fs, k) =
           Inr (out, vs @ [jack_name d i], fs(jack_name d i \<mapsto> save_png lib out), k')"
    by (simp add: jack_step_def jack_name_def Let_def)
  then show ?thesis by (intro exI)
qed


lemma jack_loop:
  assumes "b \<le> Suc N"
  shows "\<exists>cur' fs' k'.
           for_each (jack_step lib ent (int N) d) (map int [1..<b]) (cur, vs, fs, k) =
             Inr (cur', vs @ map (jack_name d) [1..<b], fs', k') \<and>
           (\<forall>p. p \<notin> jack_name d ` {1..<b} \<longrightarrow> fs' p = fs p) \<and>
           (\<forall>i\<in>{1..<b}. \<exists>img. fs' (jack_name d i) = Some (save_png lib img))"
  using assms
proof (induction b)
  case 0
  show ?case by simp
next
  case (Suc b)
  show ?case
  proof (cases "1 \<le> b")
    case False
    then show ?thesis by simp
  next
    case True
    have bN: "b \<le> N" "b \<le> Suc N" using Suc.prems by simp_all
    from Suc.IH [OF bN(2)] obtain cur1 fs1 k1 where
      run: "for_each (jack_step lib ent (int N) d) (map int [1..<b]) (cur, vs, fs, k) =
             Inr (cur1, vs @ map (jack_name d) [1..<b], fs1, k1)"
      and keep: "\<forall>p. p \<notin> jack_name d ` {1..<b} \<longrightarrow> fs1 p = fs p"
      and imgs: "\<forall>i\<in>{1..<b}. \<exists>img. fs1 (jack_name d i) = Some (save_png lib img)"
      by (elim exE conjE)
    from jack_step_Inr [OF True bN(1), of lib ent d cur1 "vs @ map (jack_name d) [1..<b]" fs1 k1]
    obtain out k2 where
      step: "jack_step lib ent (int N) d (int b) (cur1, vs @ map (jack_name d) [1..<b], fs1, k1) =
           Inr (out, (vs @ map (jack_name d) [1..<b]) @ [jack_name d b],
                fs1(jack_name d b \<mapsto> save_png lib out), k2)"
      by (elim exE)
    have u: "[1..<Suc b] = [1..<b] @ [b]"
      using True by simp
    have r: "for_each (jack_step lib ent (int N) d) (map int [1..<Suc b]) (cur, vs, fs, k) =
             Inr (out, vs @ map (jack_name d) [1..<Suc b], fs1(jack_name d b \<mapsto> save_png lib out), k2)"
      by (simp only: u map_append for_each_append run sum.case list.map for_each.simps step append_assoc)
    have k: "\<forall>p. p \<notin> jack_name d ` {1..<Suc b} \<longrightarrow> (fs1(jack_name d b \<mapsto> save_png lib out)) p = fs p"
    proof (intro allI impI)
      fix p assume p: "p \<notin> jack_name d ` {1..<Suc b}"
      have "b \<in> {1..<Suc b}" using True by simp
      with p have ne: "p \<noteq> jack_name d b" by blast
      have "{1..<b} \<subseteq> {1..<Suc b}" by auto
      with p have "p \<notin> jack_name d ` {1..<b}" by blast
      with keep have "fs1 p = fs p" by simp
      with ne show "(fs1(jack_name d b \<mapsto> save_png lib out)) p = fs p" by simp
    qed
    have i: "\<forall>i\<in>{1..<Suc b}. \<exists>img. (fs1(jack_name d b \<mapsto> save_png lib out)) (jack_name d i) = Some (save_png lib img)"
    proof
      fix i assume "i \<in> {1..<Suc b}"
      then have "i = b \<or> i \<in> {1..<b}" by auto
      then show "\<exists>img. (fs1(jack_name d b \<mapsto> save_png lib out)) (jack_name d i) = Some (save_png lib img)"
      proof
        assume "i = b"
        then show ?thesis by auto
      next
        assume "i \<in> {1..<b}"
        with imgs obtain img where "fs1 (jack_name d i) = Some (save_png lib img)" by blast
        then show ?thesis by (cases "jack_name d i = jack_name d b") auto
      qed
    qed
    from r k i show ?thesis
      by (intro exI conjI)
  qed
qed

section \<open>The variant generator\<close>

lemma upto_1_nat: "[1..n] = map int [1..<Suc (nat n)]"
proof (cases "0 \<le> n")
  case True
  then have "n = int (nat n)" by simp
  then show ?thesis using upto_1_int [of "nat n"] by simp
next
  case False
  then show ?thesis by simp
qed

lemma jack_names_Cons: "map (jack_name d) [0..<Suc N] = jack_name d 0 # map (jack_name d) [1..<Suc N]"
  by (simp add: upt_rec [of 0 "Suc N"] del: upt_Suc)

lemma jack_name_0_notin: "jack_name d 0 \<notin> jack_name d ` {1..<b}"
proof
  assume "jack_name d 0 \<in> jack_name d ` {1..<b}"
  then obtain i where "i \<in> {1..<b}" "jack_name d 0 = jack_name d i" by blast
  then show False using jack_name_inj [of d 0 i] by simp
qed

lemma generate_jack_variants_nat:
  assumes src: "fs inp = Some data" "image_open lib data = Inr raw" "convert_rgb lib raw = Inr base"
    and d: "d \<noteq> []"
  shows "\<exists>fs' k'.
           generate_jack_variants lib ent inp (int N) d (fs, k) =
             Inr (map (jack_name d) [0..<Suc N], fs', k') \<and>
           fs' (jack_name d 0) = Some (save_png lib base) \<and>
           (\<forall>p. p \<notin> jack_name d ` {0..<Suc N} \<longrightarrow> fs' p = fs p) \<and>
           (\<forall>i\<in>{0..<Suc N}. \<exists>img. fs' (jack_name d i) = Some (save_png lib img))"
proof -
  define fs0 where "fs0 = fs(jack_name d 0 \<mapsto> save_png lib base)"
  from jack_loop [where b = "Suc N" and N = N and lib = lib and ent = ent and d = d
      and cur = base and vs = "[jack_name d 0]" and fs = fs0 and k = k, OF le_refl]
  obtain cur' fs' k' where
    run: "for_each (jack_step lib ent (int N) d) (map int [1..<Suc N]) (base, [jack_name d 0], fs0, k) =
             Inr (cur', [jack_name d 0] @ map (jack_name d) [1..<Suc N], fs', k')"
    and keep: "\<forall>p. p \<notin> jack_name d ` {1..<Suc N} \<longrightarrow> fs' p = fs0 p"
    and imgs: "\<forall>i\<in>{1..<Suc N}. \<exists>img. fs' (jack_name d i) = Some (save_png lib img)"
    by (elim exE conjE)
  have run': "for_each (jack_step lib ent (int N) d) [1..int N] (base, [jack_name d 0], fs0, k) =
             Inr (cur', map (jack_name d) [0..<Suc N], fs', k')"
    using run by (simp only: upto_1_int jack_names_Cons append_Cons append_Nil)
  have res: "generate_jack_variants lib ent inp (int N) d (fs, k) =
             Inr (map (jack_name d) [0..<Suc N], fs', k')"
    using d by (simp add: generate_jack_variants_def src makedirs_def Let_def jack_name_0
        fs0_def [symmetric] run')
  have zero: "fs' (jack_name d 0) = Some (save_png lib base)"
    using keep jack_name_0_notin [of d "Suc N"] by (simp add: fs0_def)
  have others: "\<forall>p. p \<notin> jack_name d ` {0..<Suc N} \<longrightarrow> fs' p = fs p"
  proof (intro allI impI)
    fix p assume p: "p \<notin> jack_name d ` {0..<Suc N}"
    have "{1..<Suc N} \<subseteq> {0..<Suc N}" by auto
    with p have "p \<notin> jack_name d ` {1..<Suc N}" by blast
    with keep have "fs' p = fs0 p" by simp
    moreover have "p \<noteq> jack_name d 0" using p by auto
    ultimately show "fs' p = fs p" by (simp add: fs0_def)
  qed
  have all: "\<forall>i\<in>{0..<Suc N}. \<exists>img. fs' (jack_name d i) = Some (save_png lib img)"
  proof
    fix i assume "i \<in> {0..<Suc N}"
    then have "i = 0 \<or> i \<in> {1..<Suc N}" by auto
    then show "\<exists>img. fs' (jack_name d i) = Some (save_png lib img)"
      using zero imgs by auto
  qed
  from res zero others all show ?thesis
    by (intro exI conjI)
qed

lemma generate_jack_variants_negative:
  assumes src: "fs inp = Some data" "image_open lib data = Inr raw" "convert_rgb lib raw = Inr base"
    and d: "d \<noteq> []" and n: "n < 1"
  shows "generate_jack_variants lib ent inp n d (fs, k) =
           Inr ([jack_name d 0], fs(jack_name d 0 \<mapsto> save_png lib base), k)"
  using d n by (simp add: generate_jack_variants_def src makedirs_def Let_def jack_name_0)

lemma generate_jack_variants_result:
  assumes src: "fs inp = Some data" "image_open lib data = Inr raw" "convert_rgb lib raw = Inr base"
    and d: "d \<noteq> []"
  shows "\<exists>fs' k'.
           generate_jack_variants lib ent inp n d (fs, k) =
             Inr (map (jack_name d) [0..<Suc (nat n)], fs', k') \<and>
           fs' (jack_name d 0) = Some (save_png lib base) \<and>
           (\<forall>p. p \<notin> jack_name d ` {0..<Suc (nat n)} \<longrightarrow> fs' p = fs p) \<and>
           (\<forall>i\<in>{0..<Suc (nat n)}. \<exists>img. fs' (jack_name d i) = Some (save_png lib img))"
proof (cases "0 \<le> n")
  case True
  then have "n = int (nat n)" by simp
  then show ?thesis
    using generate_jack_variants_nat [where fs = fs and inp = inp and N = "nat n" and ent = ent
        and k = k, OF assms] by simp
next
  case False
  then have z: "nat n = 0" and "n < 1" by simp_all
  from generate_jack_variants_negative [where fs = fs and inp = inp and ent = ent and k = k,
      OF assms this(2)]
  show ?thesis by (auto simp add: z)
qed

section \<open>The caption generator\<close>

lemma effects_length: "length effects = 5"
  by (simp add: effects_def)

lemma effects_getitem:
  assumes "1 \<le> i" "i \<le> 5"
  shows "py_getitem effects (int i - 1) = Inr (effects ! (i - 1))"
proof -
  have "0 \<le> int i - 1" "int i - 1 < int (length effects)" "nat (int i - 1) = i - 1"
    using assms by (simp_all add: effects_length)
  then show ?thesis by (simp add: py_getitem_def)
qed

lemma caption_step_eq:
  assumes "1 \<le> i"
  shows "caption_step (int N) wm (int i, path) thread = Inr (thread @ numbered_paragraph N wm i path)"
proof (cases "i \<le> 5")
  case True
  with assms show ?thesis
    by (simp add: caption_step_def effects_getitem effects_length Let_def numbered_paragraph_def
        bank_phrase_def py_str_int split: option.splits)
next
  case False
  then show ?thesis
    by (simp add: caption_step_def effects_length Let_def numbered_paragraph_def
        bank_phrase_def py_str_int split: option.splits)
qed

lemma caption_loop:
  assumes "1 \<le> s"
  shows "for_each (caption_step (int N) wm) (py_enumerate ps (int s)) acc =
           Inr (acc @ concat (map (\<lambda>j. numbered_paragraph N wm (s + j) (ps ! j)) [0..<length ps]))"
  using assms
proof (induction ps arbitrary: s acc)
  case Nil
  show ?case by simp
next
  case (Cons p ps)
  have e: "int s + 1 = int (Suc s)" by simp
  have u: "[0..<length (p # ps)] = 0 # map Suc [0..<length ps]"
    by (simp add: upt_conv_Cons map_Suc_upt del: upt_Suc)
  have "for_each (caption_step (int N) wm) (py_enumerate (p # ps) (int s)) acc =
        for_each (caption_step (int N) wm) (py_enumerate ps (int (Suc s)))
          (acc @ numbered_paragraph N wm s p)"
    by (simp only: py_enumerate.simps for_each.simps caption_step_eq [OF Cons.prems] sum.case e)
  also have "\<dots> = Inr ((acc @ numbered_paragraph N wm s p)
       @ concat (map (\<lambda>j. numbered_paragraph N wm (Suc s + j) (ps ! j)) [0..<length ps]))"
    by (rule Cons.IH) simp
  also have "\<dots> = Inr (acc @ concat (map (\<lambda>j. numbered_paragraph N wm (s + j) ((p # ps) ! j))
                       [0..<length (p # ps)]))"
    by (simp only: u) (simp add: comp_def)
  finally show ?case .
qed

lemma jack_thread_captions_result:
  assumes "length variants = Suc N"
  shows "jack_thread_captions variants wm fs =
           Inr (thread_header
                  @ concat (map (\<lambda>i. numbered_paragraph N wm i (variants ! i)) [1..<Suc N])
                  @ thread_footer,
                fs(os_path_join (os_path_dirname (variants ! 0)) ''cyber_jack_thread.txt'' \<mapsto>
                   thread_header
                     @ concat (map (\<lambda>i. numbered_paragraph N wm i (variants ! i)) [1..<Suc N])
                     @ thread_footer))"
proof -
  obtain v ps where v: "variants = v # ps" and l: "length ps = N"
    using assms by (cases variants) auto
  have n: "int (length variants) - 1 = int N"
    using assms by simp
  have m: "map (\<lambda>i. numbered_paragraph N wm i (variants ! i)) [1..<Suc N] =
           map (\<lambda>j. numbered_paragraph N wm (1 + j) (ps ! j)) [0..<length ps]"
    by (simp add: v l map_Suc_upt [symmetric] comp_def del: upt_Suc)
  have "for_each (caption_step (int N) wm) (py_enumerate (drop 1 variants) (int 1)) thread_header =
          Inr (thread_header @ concat (map (\<lambda>j. numbered_paragraph N wm (1 + j) (ps ! j)) [0..<length ps]))"
    using caption_loop [of 1 N wm ps thread_header] by (simp add: v)
  then have loop: "for_each (caption_step (int (length variants) - 1) wm) (py_enumerate (drop 1 variants) 1) thread_header =
          Inr (thread_header @ concat (map (\<lambda>i. numbered_paragraph N wm i (variants ! i)) [1..<Suc N]))"
    by (simp only: n m) simp
  have hd: "variants \<noteq> []" "hd variants = variants ! 0"
    by (simp_all add: v)
  show ?thesis
    by (simp only: jack_thread_captions_def loop sum.case Let_def hd not_False_eq_True if_True
        append_assoc)
qed

section \<open>The whole run\<close>

lemma caption_path_not_jack: "caption_path d \<noteq> jack_name d' i"
  unfolding caption_path_def by (rule caption_file_not_jack)

lemma caption_path_notin: "caption_path d \<notin> jack_name d ` S"
  using caption_path_not_jack [of d d] by blast

lemma distinct_jack_names: "distinct (map (jack_name d) [0..<b])"
  by (simp add: distinct_map inj_on_def jack_name_inj)

lemma main_result:
  assumes src: "fs inp = Some data" "image_open lib data = Inr raw" "convert_rgb lib raw = Inr base"
    and d: "d \<noteq> []"
  shows "\<exists>fs1 k'.
           main lib ent \<lparr>input = inp, num_images = n, output_dir = d, watermark_text = wm\<rparr> (fs, k) =
             Inr (thread_header
                    @ concat (map (\<lambda>i. numbered_paragraph (nat n) wm i (jack_name d i)) [1..<Suc (nat n)])
                    @ thread_footer,
                  fs1(caption_path d \<mapsto>
                    thread_header
                    @ concat (map (\<lambda>i. numbered_paragraph (nat n) wm i (jack_name d i)) [1..<Suc (nat n)])
                    @ thread_footer),
                  k') \<and>
           fs1 (jack_name d 0) = Some (save_png lib base) \<and>
           (\<forall>p. p \<notin> jack_name d ` {0..<Suc (nat n)} \<longrightarrow> fs1 p = fs p) \<and>
           (\<forall>i\<in>{0..<Suc (nat n)}. \<exists>img. fs1 (jack_name d i) = Some (save_png lib img))"
proof -
  define N where "N = nat n"
  define variants where "variants = map (jack_name d) [0..<Suc N]"
  from generate_jack_variants_result [where fs = fs and inp = inp and ent = ent and n = n and k = k,
      OF assms]
  obtain fs1 k' where
    gen: "generate_jack_variants lib ent inp n d (fs, k) = Inr (variants, fs1, k')"
    and zero: "fs1 (jack_name d 0) = Some (save_png lib base)"
    and keep: "\<forall>p. p \<notin> jack_name d ` {0..<Suc N} \<longrightarrow> fs1 p = fs p"
    and imgs: "\<forall>i\<in>{0..<Suc N}. \<exists>img. fs1 (jack_name d i) = Some (save_png lib img)"
    unfolding N_def variants_def by (elim exE conjE)
  have len: "length variants = Suc N"
    by (simp add: variants_def)
  have nth: "variants ! i = jack_name d i" if "i < Suc N" for i
    using that unfolding variants_def by (simp add: nth_map_upt del: upt_Suc)
  have paras: "map (\<lambda>i. numbered_paragraph N wm i (variants ! i)) [1..<Suc N] =
               map (\<lambda>i. numbered_paragraph N wm i (jack_name d i)) [1..<Suc N]"
  proof (rule map_cong [OF refl])
    fix i assume "i \<in> set [1..<Suc N]"
    then have "i < Suc N" by (simp del: upt_Suc)
    then show "numbered_paragraph N wm i (variants ! i) = numbered_paragraph N wm i (jack_name d i)"
      by (simp only: nth)
  qed
  have cap: "os_path_join (os_path_dirname (variants ! 0)) ''cyber_jack_thread.txt'' = caption_path d"
    by (simp add: nth caption_path_def jack_name_0)
  have "main lib ent \<lparr>input = inp, num_images = n, output_dir = d, watermark_text = wm\<rparr> (fs, k) =
             Inr (thread_header
                    @ concat (map (\<lambda>i. numbered_paragraph N wm i (jack_name d i)) [1..<Suc N])
                    @ thread_footer,
                  fs1(caption_path d \<mapsto>
                    thread_header
                    @ concat (map (\<lambda>i. numbered_paragraph N wm i (jack_name d i)) [1..<Suc N])
                    @ thread_footer),
                  k')"
    by (simp only: main_def args.simps gen sum.case prod.case
        jack_thread_captions_result [OF len] paras cap)
  with zero keep imgs show ?thesis
    unfolding N_def by (intro exI conjI)
qed

section \<open>The claims about the run\<close>

lemma plain_pillow_simps:
  "image_open plain_pillow ''JPEG'' = Inr ''JPEG''"
  "convert_rgb plain_pillow ''JPEG'' = Inr \<lparr>width = 1, height = 1, pixels = (\<lambda>p. (10, 20, 30))\<rparr>"
  "save_png plain_pillow img = ''PNG''"
  by (simp_all add: plain_pillow_def)

lemma jack_names_out:
  "jack_name ''out'' 0 = ''out/jack_0.png''"
  "jack_name ''out'' 1 = ''out/jack_1.png''"
  "jack_name ''out'' (Suc 0) = ''out/jack_1.png''"
  "jack_name ''out'' 2 = ''out/jack_2.png''"
  "caption_path ''out'' = ''out/cyber_jack_thread.txt''"
  by (simp_all add: jack_name_def caption_path_def os_path_join_def os_path_dirname_def
      path_head_def py_str_def str_nat.simps digit_char_def)

text \<open>
  Claim C1. For every step count \<open>N \<ge> 0\<close>, when the source file opens and converts
  and the output directory is named, the variant generator followed by the caption
  generator returns, and the files then hold exactly \<open>N + 1\<close> images, under the
  pairwise different names of the step indices \<open>0..N\<close>, and one caption text under
  a further name; every other path is as before the run.
\<close>

theorem C1_file_counts:
  assumes "fs inp = Some data" "image_open lib data = Inr raw" "convert_rgb lib raw = Inr base"
    and "d \<noteq> []" and "0 \<le> n"
  shows "\<exists>thread fs' k'.
           main lib ent \<lparr>input = inp, num_images = n, output_dir = d, watermark_text = wm\<rparr> (fs, k) =
             Inr (thread, fs', k') \<and>
           length (map (jack_name d) [0..<Suc (nat n)]) = nat n + 1 \<and>
           distinct (map (jack_name d) [0..<Suc (nat n)]) \<and>
           (\<forall>i\<in>{0..<Suc (nat n)}. \<exists>img. fs' (jack_name d i) = Some (save_png lib img)) \<and>
           caption_path d \<notin> jack_name d ` {0..<Suc (nat n)} \<and>
           fs' (caption_path d) = Some thread \<and>
           (\<forall>p. p \<notin> jack_name d ` {0..<Suc (nat n)} \<and> p \<noteq> caption_path d \<longrightarrow> fs' p = fs p)"
proof -
  define thread where "thread = thread_header
      @ concat (map (\<lambda>i. numbered_paragraph (nat n) wm i (jack_name d i)) [1..<Suc (nat n)])
      @ thread_footer"
  from main_result [where fs = fs and inp = inp and ent = ent and n = n and k = k and wm = wm,
      OF assms(1-4)]
  obtain fs1 k' where
    run: "main lib ent \<lparr>input = inp, num_images = n, output_dir = d, watermark_text = wm\<rparr> (fs, k) =
            Inr (thread, fs1(caption_path d \<mapsto> thread), k')"
    and keep: "\<forall>p. p \<notin> jack_name d ` {0..<Suc (nat n)} \<longrightarrow> fs1 p = fs p"
    and imgs: "\<forall>i\<in>{0..<Suc (nat n)}. \<exists>img. fs1 (jack_name d i) = Some (save_png lib img)"
    unfolding thread_def by (elim exE conjE)
  have len: "length (map (jack_name d) [0..<Suc (nat n)]) = nat n + 1"
    by (simp del: upt_Suc)
  have imgs': "\<forall>i\<in>{0..<Suc (nat n)}.
      \<exists>img. (fs1(caption_path d \<mapsto> thread)) (jack_name d i) = Some (save_png lib img)"
  proof
    fix i assume "i \<in> {0..<Suc (nat n)}"
    with imgs obtain img where "fs1 (jack_name d i) = Some (save_png lib img)" by blast
    moreover have "jack_name d i \<noteq> caption_path d"
      using caption_path_not_jack [of d d i] by simp
    ultimately have "(fs1(caption_path d \<mapsto> thread)) (jack_name d i) = Some (save_png lib img)"
      by simp
    then show "\<exists>img. (fs1(caption_path d \<mapsto> thread)) (jack_name d i) = Some (save_png lib img)" ..
  qed
  have cap: "(fs1(caption_path d \<mapsto> thread)) (caption_path d) = Some thread"
    by simp
  have keep': "\<forall>p. p \<notin> jack_name d ` {0..<Suc (nat n)} \<and> p \<noteq> caption_path d
                 \<longrightarrow> (fs1(caption_path d \<mapsto> thread)) p = fs p"
    using keep by simp
  from run len distinct_jack_names [of d "Suc (nat n)"] imgs' caption_path_notin [of d "{0..<Suc (nat n)}"]
    cap keep'
  show ?thesis by (intro exI conjI)
qed

text \<open>
  Witness for C1: two steps into \<open>out\<close>; three images and the caption are written and
  the source file is untouched.
\<close>

theorem C1_file_counts_witness:
  "[''in.jpg'' \<mapsto> ''JPEG''] ''in.jpg'' = Some ''JPEG'' \<and>
   image_open plain_pillow ''JPEG'' = Inr ''JPEG'' \<and>
   convert_rgb plain_pillow ''JPEG'' = Inr \<lparr>width = 1, height = 1, pixels = (\<lambda>p. (10, 20, 30))\<rparr> \<and>
   ''out'' \<noteq> [] \<and> (0::int) \<le> 2 \<and>
   (\<exists>thread fs' k'.
      main plain_pillow (\<lambda>j. 0)
        \<lparr>input = ''in.jpg'', num_images = 2, output_dir = ''out'', watermark_text = None\<rparr>
        ([''in.jpg'' \<mapsto> ''JPEG''], 0) = Inr (thread, fs', k') \<and>
      fs' ''out/jack_0.png'' = Some ''PNG'' \<and>
      fs' ''out/jack_1.png'' = Some ''PNG'' \<and>
      fs' ''out/jack_2.png'' = Some ''PNG'' \<and>
      fs' ''out/cyber_jack_thread.txt'' = Some thread \<and>
      fs' ''in.jpg'' = Some ''JPEG'')"
proof -
  let ?fs = "[''in.jpg'' \<mapsto> ''JPEG'']"
  have h1: "?fs ''in.jpg'' = Some ''JPEG''" by simp
  have h4: "''out'' \<noteq> []" by simp
  have h5: "(0::int) \<le> 2" by simp
  from C1_file_counts [where fs = ?fs and inp = "''in.jpg''" and lib = plain_pillow
      and ent = "\<lambda>j. 0" and n = 2 and k = 0 and wm = None,
      OF h1 plain_pillow_simps(1) plain_pillow_simps(2) h4 h5]
  obtain thread fs' k' where
    run: "main plain_pillow (\<lambda>j. 0)
        \<lparr>input = ''in.jpg'', num_images = 2, output_dir = ''out'', watermark_text = None\<rparr>
        (?fs, 0) = Inr (thread, fs', k')"
    and imgs: "\<forall>i\<in>{0..<Suc (nat 2)}. \<exists>img. fs' (jack_name ''out'' i) = Some (save_png plain_pillow img)"
    and cap: "fs' (caption_path ''out'') = Some thread"
    and keep: "\<forall>p. p \<notin> jack_name ''out'' ` {0..<Suc (nat 2)} \<and> p \<noteq> caption_path ''out'' \<longrightarrow> fs' p = ?fs p"
    by (elim exE conjE)
  have m: "(0::nat) \<in> {0..<Suc (nat 2)}" "(1::nat) \<in> {0..<Suc (nat 2)}"
    "(2::nat) \<in> {0..<Suc (nat 2)}"
    by simp_all
  have i: "fs' ''out/jack_0.png'' = Some ''PNG''" "fs' ''out/jack_1.png'' = Some ''PNG''"
    "fs' ''out/jack_2.png'' = Some ''PNG''"
    using bspec [OF imgs m(1)] bspec [OF imgs m(2)] bspec [OF imgs m(3)]
    by (simp_all add: jack_names_out plain_pillow_simps)
  from cap have c: "fs' ''out/cyber_jack_thread.txt'' = Some thread"
    by (simp add: jack_names_out)
  have "''in.jpg'' \<notin> jack_name ''out'' ` {0..<Suc (nat 2)}"
  proof
    assume "''in.jpg'' \<in> jack_name ''out'' ` {0..<Suc (nat 2)}"
    then obtain i where "''in.jpg'' = jack_name ''out'' i" by blast
    then have "last ''in.jpg'' = CHR ''g'' \<and> length ''in.jpg'' = length (jack_name ''out'' i)"
      by (simp only: jack_name_last)
    then show False
      by (simp add: jack_name_eq dir_prefix_def)
  qed
  moreover have "''in.jpg'' \<noteq> caption_path ''out''"
    by (simp add: jack_names_out)
  ultimately have k: "fs' ''in.jpg'' = Some ''JPEG''"
    using keep by simp
  from h1 plain_pillow_simps(1,2) h4 h5 run i c k show ?thesis
    by (intro conjI exI)
qed

text \<open>
  Claim C3. For every variant list of length \<open>N + 1\<close> the caption text is the fixed
  header, then exactly \<open>N\<close> numbered paragraphs, then the fixed footer; paragraph \<open>i\<close>
  (from 1) carries the \<open>i\<close>-th phrase of the bank of five while \<open>i \<le> 5\<close> and the
  fallback phrase for \<open>i > 5\<close>.
\<close>

theorem C3_caption_paragraphs:
  assumes "length variants = Suc N"
  shows "\<exists>fs'. jack_thread_captions variants wm fs =
           Inr (thread_header
                  @ concat (map (\<lambda>i. numbered_paragraph N wm i (variants ! i)) [1..<Suc N])
                  @ thread_footer, fs') \<and>
         length (map (\<lambda>i. numbered_paragraph N wm i (variants ! i)) [1..<Suc N]) = N \<and>
         length effects = 5 \<and>
         (\<forall>i. 1 \<le> i \<and> i \<le> 5 \<longrightarrow> bank_phrase i = effects ! (i - 1)) \<and>
         (\<forall>i. 5 < i \<longrightarrow> bank_phrase i = ''matrix meltdown peaks'')"
proof -
  have "length (map (\<lambda>i. numbered_paragraph N wm i (variants ! i)) [1..<Suc N]) = N"
    by (simp del: upt_Suc)
  moreover have "\<forall>i. 1 \<le> i \<and> i \<le> 5 \<longrightarrow> bank_phrase i = effects ! (i - 1)"
    by (simp add: bank_phrase_def)
  moreover have "\<forall>i. 5 < i \<longrightarrow> bank_phrase i = ''matrix meltdown peaks''"
    by (simp add: bank_phrase_def)
  ultimately show ?thesis
    using jack_thread_captions_result [OF assms, of wm fs] effects_length by (intro exI conjI)
qed

text \<open>Witness for C3: one variant after the original, with a watermark.\<close>

theorem C3_caption_witness:
  "length [''o/jack_0.png'', ''o/jack_1.png''] = Suc 1 \<and>
   (\<exists>fs'. jack_thread_captions [''o/jack_0.png'', ''o/jack_1.png''] (Some ''@me'') Map.empty =
      Inr (thread_header
           @ (''1/1: Ramp 1'' @ ramp_dash
              @ ''chromatic fringes tease the blue haze. Portrait pulses. @me ''
              @ [CHR 0x0A] @ ''[Neon Fracture: jack_1.png]'' @ [CHR 0x0A, CHR 0x0A])
           @ thread_footer, fs'))"
proof -
  let ?vs = "[''o/jack_0.png'', ''o/jack_1.png'']"
  have h: "length ?vs = Suc 1" by simp
  have p: "concat (map (\<lambda>i. numbered_paragraph 1 (Some ''@me'') i (?vs ! i)) [1..<Suc 1]) =
           ''1/1: Ramp 1'' @ ramp_dash
              @ ''chromatic fringes tease the blue haze. Portrait pulses. @me ''
              @ [CHR 0x0A] @ ''[Neon Fracture: jack_1.png]'' @ [CHR 0x0A, CHR 0x0A]"
    by (simp add: numbered_paragraph_def bank_phrase_def effects_def str_nat.simps digit_char_def
        os_path_basename_def)
  from C3_caption_paragraphs [OF h, of "Some ''@me''" Map.empty]
  obtain fs' where "jack_thread_captions ?vs (Some ''@me'') Map.empty =
           Inr (thread_header
                  @ concat (map (\<lambda>i. numbered_paragraph 1 (Some ''@me'') i (?vs ! i)) [1..<Suc 1])
                  @ thread_footer, fs')"
    by (elim exE conjE)
  then have "jack_thread_captions ?vs (Some ''@me'') Map.empty =
      Inr (thread_header
           @ (''1/1: Ramp 1'' @ ramp_dash
              @ ''chromatic fringes tease the blue haze. Portrait pulses. @me ''
              @ [CHR 0x0A] @ ''[Neon Fracture: jack_1.png]'' @ [CHR 0x0A, CHR 0x0A])
           @ thread_footer, fs')"
    by (simp only: p)
  with h show ?thesis by (intro conjI exI)
qed

text \<open>
  Claim C5. With step count 0, when the source file opens and converts and the output
  directory is named, the run returns without error; it writes the step-0 copy of
  the source image and a caption file that is the header followed at once by the
  footer, and nothing else.
\<close>

theorem C5_zero_steps:
  assumes "fs inp = Some data" "image_open lib data = Inr raw" "convert_rgb lib raw = Inr base"
    and "d \<noteq> []"
  shows "main lib ent \<lparr>input = inp, num_images = 0, output_dir = d, watermark_text = wm\<rparr> (fs, k) =
           Inr (thread_header @ thread_footer,
                fs(os_path_join d ''jack_0.png'' \<mapsto> save_png lib base,
                   caption_path d \<mapsto> thread_header @ thread_footer),
                k)"
proof -
  have z: "(0::int) < 1" by simp
  have gen: "generate_jack_variants lib ent inp 0 d (fs, k) =
           Inr ([jack_name d 0], fs(jack_name d 0 \<mapsto> save_png lib base), k)"
    by (rule generate_jack_variants_negative [where fs = fs and inp = inp, OF assms z])
  have len: "length [jack_name d 0] = Suc 0" by simp
  have cap: "jack_thread_captions [jack_name d 0] wm (fs(jack_name d 0 \<mapsto> save_png lib base)) =
           Inr (thread_header @ thread_footer,
                fs(jack_name d 0 \<mapsto> save_png lib base,
                   caption_path d \<mapsto> thread_header @ thread_footer))"
    using jack_thread_captions_result [OF len, of wm "fs(jack_name d 0 \<mapsto> save_png lib base)"]
    by (simp add: caption_path_def jack_name_0)
  show ?thesis
    by (simp only: main_def args.simps gen sum.case prod.case cap jack_name_0)
qed

text \<open>Witness for C5: the run with zero steps, evaluated.\<close>

theorem C5_zero_steps_witness:
  "[''in.jpg'' \<mapsto> ''JPEG''] ''in.jpg'' = Some ''JPEG'' \<and>
   image_open plain_pillow ''JPEG'' = Inr ''JPEG'' \<and>
   convert_rgb plain_pillow ''JPEG'' = Inr \<lparr>width = 1, height = 1, pixels = (\<lambda>p. (10, 20, 30))\<rparr> \<and>
   ''out'' \<noteq> [] \<and>
   main plain_pillow (\<lambda>j. 0)
     \<lparr>input = ''in.jpg'', num_images = 0, output_dir = ''out'', watermark_text = None\<rparr>
     ([''in.jpg'' \<mapsto> ''JPEG''], 0) =
   Inr (thread_header @ thread_footer,
        [''in.jpg'' \<mapsto> ''JPEG'', ''out/jack_0.png'' \<mapsto> ''PNG'',
         ''out/cyber_jack_thread.txt'' \<mapsto> thread_header @ thread_footer],
        0)"
proof -
  let ?fs = "[''in.jpg'' \<mapsto> ''JPEG'']"
  have h1: "?fs ''in.jpg'' = Some ''JPEG''" by simp
  have h4: "''out'' \<noteq> []" by simp
  have j: "os_path_join ''out'' ''jack_0.png'' = ''out/jack_0.png''"
    by (simp add: os_path_join_def)
  from C5_zero_steps [where fs = ?fs and inp = "''in.jpg''" and lib = plain_pillow
      and ent = "\<lambda>j. 0" and k = 0 and wm = None,
      OF h1 plain_pillow_simps(1) plain_pillow_simps(2) h4]
  have "main plain_pillow (\<lambda>j. 0)
     \<lparr>input = ''in.jpg'', num_images = 0, output_dir = ''out'', watermark_text = None\<rparr>
     (?fs, 0) =
   Inr (thread_header @ thread_footer,
        [''in.jpg'' \<mapsto> ''JPEG'', ''out/jack_0.png'' \<mapsto> ''PNG'',
         ''out/cyber_jack_thread.txt'' \<mapsto> thread_header @ thread_footer],
        0)"
    by (simp only: j jack_names_out plain_pillow_simps)
  with h1 plain_pillow_simps(1,2) h4 show ?thesis
    by (intro conjI)
qed

text \<open>
  Claim C6. The step-0 output is the source image after its conversion to RGB: the
  generator saves the converted image itself, with no filter applied, as the first
  variant, and no later step of the generator or of the caption generator writes to
  that path.
\<close>

theorem C6_step0_pristine:
  assumes "fs inp = Some data" "image_open lib data = Inr raw" "convert_rgb lib raw = Inr base"
    and "d \<noteq> []"
  shows "(\<exists>variants fs1 k1.
            generate_jack_variants lib ent inp n d (fs, k) = Inr (variants, fs1, k1) \<and>
            variants ! 0 = os_path_join d ''jack_0.png'' \<and>
            fs1 (os_path_join d ''jack_0.png'') = Some (save_png lib base)) \<and>
         (\<exists>thread fs2 k2.
            main lib ent \<lparr>input = inp, num_images = n, output_dir = d, watermark_text = wm\<rparr> (fs, k) =
              Inr (thread, fs2, k2) \<and>
            fs2 (os_path_join d ''jack_0.png'') = Some (save_png lib base))"
proof -
  from generate_jack_variants_result [where fs = fs and inp = inp and ent = ent and n = n and k = k,
      OF assms]
  obtain fs1 k1 where
    gen: "generate_jack_variants lib ent inp n d (fs, k) =
            Inr (map (jack_name d) [0..<Suc (nat n)], fs1, k1)"
    and zero: "fs1 (jack_name d 0) = Some (save_png lib base)"
    by (elim exE conjE)
  have first: "map (jack_name d) [0..<Suc (nat n)] ! 0 = os_path_join d ''jack_0.png''"
    by (simp add: jack_names_Cons jack_name_0 del: upt_Suc)
  have zero0: "fs1 (os_path_join d ''jack_0.png'') = Some (save_png lib base)"
    using zero by (simp only: jack_name_0)
  from gen first zero0
  have A: "\<exists>variants fs1 k1.
            generate_jack_variants lib ent inp n d (fs, k) = Inr (variants, fs1, k1) \<and>
            variants ! 0 = os_path_join d ''jack_0.png'' \<and>
            fs1 (os_path_join d ''jack_0.png'') = Some (save_png lib base)"
    by (intro exI conjI)
  from main_result [where fs = fs and inp = inp and ent = ent and n = n and k = k and wm = wm,
      OF assms]
  obtain thread fs1' k2 where
    run: "main lib ent \<lparr>input = inp, num_images = n, output_dir = d, watermark_text = wm\<rparr> (fs, k) =
            Inr (thread, fs1'(caption_path d \<mapsto> thread), k2)"
    and zero': "fs1' (jack_name d 0) = Some (save_png lib base)"
    by (elim exE conjE)
  have "(fs1'(caption_path d \<mapsto> thread)) (jack_name d 0) = Some (save_png lib base)"
    using zero' caption_path_not_jack [of d d 0] by simp
  then have "(fs1'(caption_path d \<mapsto> thread)) (os_path_join d ''jack_0.png'') = Some (save_png lib base)"
    by (simp only: jack_name_0)
  with run have B: "\<exists>thread fs2 k2.
            main lib ent \<lparr>input = inp, num_images = n, output_dir = d, watermark_text = wm\<rparr> (fs, k) =
              Inr (thread, fs2, k2) \<and>
            fs2 (os_path_join d ''jack_0.png'') = Some (save_png lib base)"
    by (intro exI conjI)
  from A B show ?thesis ..
qed

text \<open>Witness for C6: a run with one step.\<close>

theorem C6_step0_witness:
  "[''in.jpg'' \<mapsto> ''JPEG''] ''in.jpg'' = Some ''JPEG'' \<and>
   image_open plain_pillow ''JPEG'' = Inr ''JPEG'' \<and>
   convert_rgb plain_pillow ''JPEG'' = Inr \<lparr>width = 1, height = 1, pixels = (\<lambda>p. (10, 20, 30))\<rparr> \<and>
   ''out'' \<noteq> [] \<and>
   (\<exists>thread fs2 k2.
      main plain_pillow (\<lambda>j. 0)
        \<lparr>input = ''in.jpg'', num_images = 1, output_dir = ''out'', watermark_text = None\<rparr>
        ([''in.jpg'' \<mapsto> ''JPEG''], 0) = Inr (thread, fs2, k2) \<and>
      fs2 ''out/jack_0.png'' =
        Some (save_png plain_pillow \<lparr>width = 1, height = 1, pixels = (\<lambda>p. (10, 20, 30))\<rparr>))"
proof -
  let ?fs = "[''in.jpg'' \<mapsto> ''JPEG'']"
  have h1: "?fs ''in.jpg'' = Some ''JPEG''" by simp
  have h4: "''out'' \<noteq> []" by simp
  have j: "os_path_join ''out'' ''jack_0.png'' = ''out/jack_0.png''"
    by (simp add: os_path_join_def)
  from C6_step0_pristine [where fs = ?fs and inp = "''in.jpg''" and lib = plain_pillow
      and ent = "\<lambda>j. 0" and n = 1 and k = 0 and wm = None,
      OF h1 plain_pillow_simps(1) plain_pillow_simps(2) h4]
  have "\<exists>thread fs2 k2.
      main plain_pillow (\<lambda>j. 0)
        \<lparr>input = ''in.jpg'', num_images = 1, output_dir = ''out'', watermark_text = None\<rparr>
        (?fs, 0) = Inr (thread, fs2, k2) \<and>
      fs2 ''out/jack_0.png'' =
        Some (save_png plain_pillow \<lparr>width = 1, height = 1, pixels = (\<lambda>p. (10, 20, 30))\<rparr>)"
    by (simp only: j)
  with h1 plain_pillow_simps(1,2) h4 show ?thesis
    by (intro conjI)
qed

end
